theory Spec2Isabelle
  imports Main "HOL-Library.Word" "HOL-Library.Signed_Division" "HOL-Library.Multiset"
begin

section \<open>Page Replacement Algorithm Analyzer: the data model\<close>

text \<open>
  The program is one C++ file, \<^verbatim>\<open>PageReplacementAnalyzer.cpp\<close>. Its numbers are C++
  \<^verbatim>\<open>int\<close>s: 32-bit two's complement values, modelled as \<open>32 word\<close>. Arithmetic on
  them wraps around (\<open>+\<close> and \<open>*\<close> of the word type), \<open>sint\<close> reads the signed value
  and every comparison of the source is a comparison of \<open>sint\<close> values.

  A read that C++ leaves undefined (the front of an empty queue, the last element of an
  empty set, a vector index outside the vector, a variable that was never assigned and
  whose value matters) is an \<open>error\<close> value of the model: every function that can reach
  one returns \<open>error + result\<close>, and the loops stop at the first error.
\<close>

type_synonym cint = "32 word"

definition MISS :: nat where
  "MISS = 0"

definition TOTAL :: nat where
  "TOTAL = 1"

definition INT_MAX :: cint where
  "INT_MAX = 2147483647"

datatype error =
    EmptyQueueFront
  | UninitialisedVictim
  | EmptySetLast
  | IndexOutOfRange int nat
  | LengthError
  | CellOutOfRange

text \<open>
  \<^item> \<open>EmptyQueueFront\<close>: \<^verbatim>\<open>order.front()\<close> and \<^verbatim>\<open>order.pop()\<close> on an empty queue (FIFO);
  \<^item> \<open>UninitialisedVictim\<close>: \<^verbatim>\<open>cache.erase(val)\<close> on a set that is not empty, where
    the scan never assigned \<^verbatim>\<open>val\<close> (LRU, MRU);
  \<^item> \<open>EmptySetLast\<close>: \<^verbatim>\<open>*occSet.rbegin()\<close> on an empty set (OPT);
  \<^item> \<open>IndexOutOfRange k n\<close>: \<^verbatim>\<open>pageID[removeAt]\<close> with \<open>removeAt = k\<close> outside
    \<open>[0, n)\<close>, \<open>n\<close> the size of the vector (OPT);
  \<^item> \<open>LengthError\<close>: \<^verbatim>\<open>vector<int> next(total, total)\<close> with a negative \<open>total\<close> (OPT);
  \<^item> \<open>CellOutOfRange\<close>: \<^verbatim>\<open>curOutput[i][TOTAL]\<close> on a cell with fewer than two
    elements (mergeOutput).
\<close>

subsection \<open>The state of one policy evaluation\<close>

text \<open>
  Each \<^verbatim>\<open>processRAM\<close> keeps its working state in locals: the miss counter, the
  resident set \<^verbatim>\<open>cache\<close> (an \<^verbatim>\<open>unordered_set<int>\<close>, a finite set of values) and
  one more structure per policy: FIFO's \<^verbatim>\<open>queue<int> order\<close> (front first), the
  \<^verbatim>\<open>unordered_map<int, int> lastUsed\<close> of LRU and MRU (\<^verbatim>\<open>operator[]\<close> gives 0 for
  a key that was never stored, so the map is a total function starting at 0), and OPT's
  \<^verbatim>\<open>set<int> occSet\<close>, a set ordered by the signed value of its elements and so held
  here as the set of these values.
\<close>

record ram_state =
  missCount :: cint
  cache :: "cint set"

record fifo_state = ram_state +
  order :: "cint list"

record lru_state = ram_state +
  lastUsed :: "cint \<Rightarrow> cint"

record opt_state = ram_state +
  occSet :: "int set"

definition fifo_init :: fifo_state where
  "fifo_init = \<lparr>missCount = 0, cache = {}, order = []\<rparr>"

definition lru_init :: lru_state where
  "lru_init = \<lparr>missCount = 0, cache = {}, lastUsed = (\<lambda>_. 0)\<rparr>"

definition opt_init :: opt_state where
  "opt_init = \<lparr>missCount = 0, cache = {}, occSet = {}\<rparr>"

section \<open>The four policies\<close>

subsection \<open>FIFO\<close>

text \<open>
  One iteration of \<^verbatim>\<open>for (int id : pageID)\<close> in \<^verbatim>\<open>FIFO::processRAM\<close>.
  \<^verbatim>\<open>cache.size() == noOfRAMPages\<close> compares a \<^verbatim>\<open>size_t\<close> with an \<^verbatim>\<open>int\<close>: the
  \<^verbatim>\<open>int\<close> is converted to \<^verbatim>\<open>size_t\<close>, so a negative capacity never equals a size.
\<close>

definition FIFO_step :: "cint \<Rightarrow> cint \<Rightarrow> fifo_state \<Rightarrow> error + fifo_state" where
  "FIFO_step noOfRAMPages pid s =
     (if pid \<notin> cache s then
        (let s1 = s\<lparr>missCount := missCount s + 1\<rparr> in
         if int (card (cache s1)) = sint noOfRAMPages then
           (case order s1 of
              [] \<Rightarrow> Inl EmptyQueueFront
            | front # rest \<Rightarrow>
                Inr (s1\<lparr>cache := insert pid (cache s1 - {front}), order := rest @ [pid]\<rparr>))
         else Inr (s1\<lparr>cache := insert pid (cache s1), order := order s1 @ [pid]\<rparr>))
      else Inr s)"

fun FIFO_loop :: "cint \<Rightarrow> cint list \<Rightarrow> fifo_state \<Rightarrow> error + fifo_state" where
  "FIFO_loop noOfRAMPages [] s = Inr s"
| "FIFO_loop noOfRAMPages (pid # rest) s =
     (case FIFO_step noOfRAMPages pid s of
        Inl e \<Rightarrow> Inl e
      | Inr s' \<Rightarrow> FIFO_loop noOfRAMPages rest s')"

definition FIFO_processRAM :: "cint \<Rightarrow> cint \<Rightarrow> cint list \<Rightarrow> error + cint list" where
  "FIFO_processRAM noOfPages noOfRAMPages pageID =
     (let total = (of_nat (length pageID) :: cint) in
      case FIFO_loop noOfRAMPages pageID fifo_init of
        Inl e \<Rightarrow> Inl e
      | Inr s \<Rightarrow> Inr [missCount s, total])"

subsection \<open>LRU and MRU\<close>

text \<open>
  The victim scan \<^verbatim>\<open>for (int p : cache) if (lastUsed[p] < lru) lru = lastUsed[p], val = p;\<close>
  over the residents in the order the hash set yields them. \<^verbatim>\<open>val\<close> starts
  unassigned (\<open>None\<close>).
\<close>

fun LRU_scan :: "(cint \<Rightarrow> cint) \<Rightarrow> cint list \<Rightarrow> cint \<times> cint option \<Rightarrow> cint \<times> cint option" where
  "LRU_scan lu [] (lru, val) = (lru, val)"
| "LRU_scan lu (p # ps) (lru, val) =
     LRU_scan lu ps (if sint (lu p) < sint lru then (lu p, Some p) else (lru, val))"

fun MRU_scan :: "(cint \<Rightarrow> cint) \<Rightarrow> cint list \<Rightarrow> cint \<times> cint option \<Rightarrow> cint \<times> cint option" where
  "MRU_scan lu [] (mru, val) = (mru, val)"
| "MRU_scan lu (p # ps) (mru, val) =
     MRU_scan lu ps (if sint (lu p) > sint mru then (lu p, Some p) else (mru, val))"

text \<open>
  The iteration order of an \<^verbatim>\<open>unordered_set\<close> is not specified; the model iterates in
  increasing order of the elements. The index \<open>i\<close> of the loop is the \<^verbatim>\<open>int i\<close> of
  the source. When the scan assigns no victim because there is no resident,
  \<^verbatim>\<open>cache.erase(val)\<close> removes nothing from the empty set, whatever \<^verbatim>\<open>val\<close> holds,
  and the run goes on with the insertion.
\<close>

definition LRU_step :: "cint \<Rightarrow> cint \<Rightarrow> cint \<Rightarrow> lru_state \<Rightarrow> error + lru_state" where
  "LRU_step noOfRAMPages i pid s =
     (case
        (if pid \<notin> cache s then
           (let s1 = s\<lparr>missCount := missCount s + 1\<rparr> in
            if int (card (cache s1)) = sint noOfRAMPages then
              (case snd (LRU_scan (lastUsed s1) (sorted_list_of_set (cache s1)) (INT_MAX, None)) of
                 None \<Rightarrow>
                   (if cache s1 = {} then Inr (s1\<lparr>cache := insert pid (cache s1)\<rparr>)
                    else Inl UninitialisedVictim)
               | Some val \<Rightarrow> Inr (s1\<lparr>cache := insert pid (cache s1 - {val})\<rparr>))
            else Inr (s1\<lparr>cache := insert pid (cache s1)\<rparr>))
         else Inr s) of
        Inl e \<Rightarrow> Inl e
      | Inr s2 \<Rightarrow> Inr (s2\<lparr>lastUsed := (lastUsed s2)(pid := i)\<rparr>))"

definition MRU_step :: "cint \<Rightarrow> cint \<Rightarrow> cint \<Rightarrow> lru_state \<Rightarrow> error + lru_state" where
  "MRU_step noOfRAMPages i pid s =
     (case
        (if pid \<notin> cache s then
           (let s1 = s\<lparr>missCount := missCount s + 1\<rparr> in
            if int (card (cache s1)) = sint noOfRAMPages then
              (case snd (MRU_scan (lastUsed s1) (sorted_list_of_set (cache s1)) (- 1, None)) of
                 None \<Rightarrow>
                   (if cache s1 = {} then Inr (s1\<lparr>cache := insert pid (cache s1)\<rparr>)
                    else Inl UninitialisedVictim)
               | Some val \<Rightarrow> Inr (s1\<lparr>cache := insert pid (cache s1 - {val})\<rparr>))
            else Inr (s1\<lparr>cache := insert pid (cache s1)\<rparr>))
         else Inr s) of
        Inl e \<Rightarrow> Inl e
      | Inr s2 \<Rightarrow> Inr (s2\<lparr>lastUsed := (lastUsed s2)(pid := i)\<rparr>))"

fun LRU_loop :: "cint \<Rightarrow> nat \<Rightarrow> cint list \<Rightarrow> lru_state \<Rightarrow> error + lru_state" where
  "LRU_loop noOfRAMPages i [] s = Inr s"
| "LRU_loop noOfRAMPages i (pid # rest) s =
     (case LRU_step noOfRAMPages (of_nat i) pid s of
        Inl e \<Rightarrow> Inl e
      | Inr s' \<Rightarrow> LRU_loop noOfRAMPages (Suc i) rest s')"

fun MRU_loop :: "cint \<Rightarrow> nat \<Rightarrow> cint list \<Rightarrow> lru_state \<Rightarrow> error + lru_state" where
  "MRU_loop noOfRAMPages i [] s = Inr s"
| "MRU_loop noOfRAMPages i (pid # rest) s =
     (case MRU_step noOfRAMPages (of_nat i) pid s of
        Inl e \<Rightarrow> Inl e
      | Inr s' \<Rightarrow> MRU_loop noOfRAMPages (Suc i) rest s')"

text \<open>
  \<^verbatim>\<open>int total = pageID.size()\<close> keeps the low 32 bits of the size, and
  \<^verbatim>\<open>for (int i = 0; i < total; i++)\<close> visits \<^verbatim>\<open>pageID[0]\<close> to \<^verbatim>\<open>pageID[total - 1]\<close>:
  the first \<open>nat (sint total)\<close> elements, none when \<open>total\<close> is not positive.
\<close>

definition LRU_processRAM :: "cint \<Rightarrow> cint \<Rightarrow> cint list \<Rightarrow> error + cint list" where
  "LRU_processRAM noOfPages noOfRAMPages pageID =
     (let total = (of_nat (length pageID) :: cint) in
      case LRU_loop noOfRAMPages 0 (take (nat (sint total)) pageID) lru_init of
        Inl e \<Rightarrow> Inl e
      | Inr s \<Rightarrow> Inr [missCount s, total])"

definition MRU_processRAM :: "cint \<Rightarrow> cint \<Rightarrow> cint list \<Rightarrow> error + cint list" where
  "MRU_processRAM noOfPages noOfRAMPages pageID =
     (let total = (of_nat (length pageID) :: cint) in
      case MRU_loop noOfRAMPages 0 (take (nat (sint total)) pageID) lru_init of
        Inl e \<Rightarrow> Inl e
      | Inr s \<Rightarrow> Inr [missCount s, total])"

subsection \<open>OPT\<close>

text \<open>
  The lookahead table: \<^verbatim>\<open>for (int i = total - 1; i >= 0; i--)\<close>, written as a
  recursion on the number of indices still to visit; \<open>OPT_next pageID (Suc i)\<close> visits
  index \<open>i\<close> and goes on downwards.
\<close>

fun OPT_next :: "cint list \<Rightarrow> nat \<Rightarrow> cint list \<times> (cint \<Rightarrow> cint option) \<Rightarrow>
    cint list \<times> (cint \<Rightarrow> cint option)" where
  "OPT_next pageID 0 (nxt, futureIndex) = (nxt, futureIndex)"
| "OPT_next pageID (Suc i) (nxt, futureIndex) =
     OPT_next pageID i
       ((case futureIndex (pageID ! i) of
           Some j \<Rightarrow> nxt[i := j]
         | None \<Rightarrow> nxt),
        futureIndex(pageID ! i \<mapsto> of_nat i))"

text \<open>
  One iteration of the main loop at index \<open>i\<close>. \<^verbatim>\<open>*occSet.rbegin()\<close> is the largest
  element of the ordered set; \<^verbatim>\<open>pageID[removeAt]\<close> is a read of the vector at that
  element, defined only inside the vector.
\<close>

definition OPT_step :: "cint \<Rightarrow> cint list \<Rightarrow> cint list \<Rightarrow> nat \<Rightarrow> opt_state \<Rightarrow> error + opt_state" where
  "OPT_step noOfRAMPages pageID nxt i s =
     (if pageID ! i \<notin> cache s then
        (case
           (if int (card (cache s)) = sint noOfRAMPages then
              (if occSet s = {} then Inl EmptySetLast
               else
                 (let removeAt = Max (occSet s) in
                  if 0 \<le> removeAt \<and> removeAt < int (length pageID) then
                    Inr (s\<lparr>occSet := occSet s - {removeAt},
                           cache := cache s - {pageID ! nat removeAt}\<rparr>)
                  else Inl (IndexOutOfRange removeAt (length pageID))))
            else Inr s) of
           Inl e \<Rightarrow> Inl e
         | Inr s1 \<Rightarrow>
             Inr (s1\<lparr>cache := insert (pageID ! i) (cache s1),
                     occSet := insert (sint (nxt ! i)) (occSet s1),
                     missCount := missCount s1 + 1\<rparr>))
      else Inr (s\<lparr>occSet := insert (sint (nxt ! i)) (occSet s - {int i})\<rparr>))"

text \<open>\<open>OPT_loop \<dots> i k s\<close> runs the \<open>k\<close> iterations that start at index \<open>i\<close>.\<close>

fun OPT_loop :: "cint \<Rightarrow> cint list \<Rightarrow> cint list \<Rightarrow> nat \<Rightarrow> nat \<Rightarrow> opt_state \<Rightarrow> error + opt_state" where
  "OPT_loop noOfRAMPages pageID nxt i 0 s = Inr s"
| "OPT_loop noOfRAMPages pageID nxt i (Suc k) s =
     (case OPT_step noOfRAMPages pageID nxt i s of
        Inl e \<Rightarrow> Inl e
      | Inr s' \<Rightarrow> OPT_loop noOfRAMPages pageID nxt (Suc i) k s')"

definition OPT_processRAM :: "cint \<Rightarrow> cint \<Rightarrow> cint list \<Rightarrow> error + cint list" where
  "OPT_processRAM noOfPages noOfRAMPages pageID =
     (let total = (of_nat (length pageID) :: cint) in
      if sint total < 0 then Inl LengthError
      else
        (let n = nat (sint total);
             nxt = fst (OPT_next pageID n (replicate n total, Map.empty)) in
         case OPT_loop noOfRAMPages pageID nxt 0 n opt_init of
           Inl e \<Rightarrow> Inl e
         | Inr s \<Rightarrow> Inr [missCount s, total]))"

subsection \<open>OPT past a read outside the vector\<close>

text \<open>
  \<^verbatim>\<open>pageID[removeAt]\<close> is \<^verbatim>\<open>operator[]\<close> of a vector: a build without bounds checks
  does not stop when \<^verbatim>\<open>removeAt\<close> is outside the vector. The read yields whatever
  \<^verbatim>\<open>int\<close> lies there, \<^verbatim>\<open>cache.erase\<close> removes that value if it is resident and nothing
  otherwise, and the run goes on. \<open>stray i\<close> stands for the value that such a read
  yields in iteration \<open>i\<close>; everything else is as in \<open>OPT_step\<close>, \<open>OPT_loop\<close> and
  \<open>OPT_processRAM\<close>, which stop at that read.
\<close>

definition OPT_step_read :: "(nat \<Rightarrow> cint) \<Rightarrow> cint \<Rightarrow> cint list \<Rightarrow> cint list \<Rightarrow> nat \<Rightarrow>
    opt_state \<Rightarrow> error + opt_state" where
  "OPT_step_read stray noOfRAMPages pageID nxt i s =
     (if pageID ! i \<notin> cache s then
        (case
           (if int (card (cache s)) = sint noOfRAMPages then
              (if occSet s = {} then Inl EmptySetLast
               else
                 (let removeAt = Max (occSet s);
                      page = (if 0 \<le> removeAt \<and> removeAt < int (length pageID)
                              then pageID ! nat removeAt else stray i)
                  in Inr (s\<lparr>occSet := occSet s - {removeAt}, cache := cache s - {page}\<rparr>)))
            else Inr s) of
           Inl e \<Rightarrow> Inl e
         | Inr s1 \<Rightarrow>
             Inr (s1\<lparr>cache := insert (pageID ! i) (cache s1),
                     occSet := insert (sint (nxt ! i)) (occSet s1),
                     missCount := missCount s1 + 1\<rparr>))
      else Inr (s\<lparr>occSet := insert (sint (nxt ! i)) (occSet s - {int i})\<rparr>))"

fun OPT_loop_read :: "(nat \<Rightarrow> cint) \<Rightarrow> cint \<Rightarrow> cint list \<Rightarrow> cint list \<Rightarrow> nat \<Rightarrow> nat \<Rightarrow>
    opt_state \<Rightarrow> error + opt_state" where
  "OPT_loop_read stray noOfRAMPages pageID nxt i 0 s = Inr s"
| "OPT_loop_read stray noOfRAMPages pageID nxt i (Suc k) s =
     (case OPT_step_read stray noOfRAMPages pageID nxt i s of
        Inl e \<Rightarrow> Inl e
      | Inr s' \<Rightarrow> OPT_loop_read stray noOfRAMPages pageID nxt (Suc i) k s')"

definition OPT_processRAM_read :: "(nat \<Rightarrow> cint) \<Rightarrow> cint \<Rightarrow> cint \<Rightarrow> cint list \<Rightarrow>
    error + cint list" where
  "OPT_processRAM_read stray noOfPages noOfRAMPages pageID =
     (let total = (of_nat (length pageID) :: cint) in
      if sint total < 0 then Inl LengthError
      else
        (let n = nat (sint total);
             nxt = fst (OPT_next pageID n (replicate n total, Map.empty)) in
         case OPT_loop_read stray noOfRAMPages pageID nxt 0 n opt_init of
           Inl e \<Rightarrow> Inl e
         | Inr s \<Rightarrow> Inr [missCount s, total]))"

section \<open>Processes, the page-size analysis and the aggregation\<close>

subsection \<open>Integer division and the random source\<close>

text \<open>
  \<^verbatim>\<open>/\<close> and \<^verbatim>\<open>%\<close> on \<^verbatim>\<open>int\<close> truncate towards zero. The source divides by
  \<^verbatim>\<open>pageSize\<close> only when it is not 0, and takes \<^verbatim>\<open>rand() % noOfPages\<close> only inside a
  loop that does not run for \<^verbatim>\<open>noOfPages = 0\<close>.
\<close>

definition c_div :: "cint \<Rightarrow> cint \<Rightarrow> cint" where
  "c_div a b = word_of_int (sint a sdiv sint b)"

definition c_rem :: "cint \<Rightarrow> cint \<Rightarrow> cint" where
  "c_rem a b = word_of_int (sint a smod sint b)"

text \<open>
  \<^verbatim>\<open>rand()\<close> belongs to the C library, not to the program: the model takes the sequence
  of its return values as a parameter \<open>rnd\<close> and threads the number \<open>k\<close> of calls made
  so far. The library promises \<open>0 \<le> rand() \<le> RAND_MAX\<close>.
\<close>

type_synonym rand_source = "nat \<Rightarrow> cint"

subsection \<open>process\<close>

record process =
  proc_noOfRAMPages :: cint
  proc_noOfPages :: cint
  proc_pageID :: "cint list"

text \<open>
  \<^verbatim>\<open>for (int i = 0; i < noOfBlocks; i++) pageID.push_back((rand() % noOfPages) + 1)\<close>:
  \<open>createProcess_loop rnd noOfPages k n\<close> is the vector built by \<open>n\<close> iterations, the
  first of which makes call number \<open>k\<close> of \<^verbatim>\<open>rand()\<close>.
\<close>

fun createProcess_loop :: "rand_source \<Rightarrow> cint \<Rightarrow> nat \<Rightarrow> nat \<Rightarrow> cint list" where
  "createProcess_loop rnd noOfPages k 0 = []"
| "createProcess_loop rnd noOfPages k (Suc n) =
     (c_rem (rnd k) noOfPages + 1) # createProcess_loop rnd noOfPages (Suc k) n"

text \<open>
  \<^verbatim>\<open>int noOfBlocks = 100 * noOfPages\<close> is a 32-bit product. The loop runs
  \<open>noOfBlocks\<close> times when that is positive and not at all otherwise.
\<close>

definition createProcess :: "rand_source \<Rightarrow> nat \<Rightarrow> cint \<Rightarrow> cint \<Rightarrow> process \<times> nat" where
  "createProcess rnd k noOfPages noOfRAMPages =
     (let noOfBlocks = 100 * noOfPages;
          n = nat (sint noOfBlocks)
      in (\<lparr>proc_noOfRAMPages = noOfRAMPages, proc_noOfPages = noOfPages,
           proc_pageID = createProcess_loop rnd noOfPages k n\<rparr>, k + n))"

text \<open>
  The table \<^verbatim>\<open>mapping\<close> of the four algorithms: name, \<^verbatim>\<open>processRAM\<close> of the class the
  factory builds, and \<^verbatim>\<open>algoID\<close>. (The factory receives \<^verbatim>\<open>noOfPages\<close> and
  \<^verbatim>\<open>noOfRAMPages\<close> in the opposite order of its parameters, but \<^verbatim>\<open>processRAM\<close> reads
  only its own arguments, never the fields.) The table is an \<^verbatim>\<open>unordered_map\<close>; each
  entry writes its own cell, and the model visits the entries in the order of the IDs.
\<close>

type_synonym algoData = "(cint \<Rightarrow> cint \<Rightarrow> cint list \<Rightarrow> error + cint list) \<times> nat"

definition mapping :: "(string \<times> algoData) list" where
  "mapping =
     [(''OPT'', (OPT_processRAM, 1)), (''FIFO'', (FIFO_processRAM, 2)),
      (''LRU'', (LRU_processRAM, 3)), (''MRU'', (MRU_processRAM, 4))]"

fun runProcess_loop :: "process \<Rightarrow> (string \<times> algoData) list \<Rightarrow> cint list list \<Rightarrow>
    error + cint list list" where
  "runProcess_loop p [] processOutput = Inr processOutput"
| "runProcess_loop p ((name, (processRAM, algoID)) # rest) processOutput =
     (if proc_noOfPages p = - 1 then
        runProcess_loop p rest (processOutput[algoID := [- 1, - 1]])
      else
        (case processRAM (proc_noOfPages p) (proc_noOfRAMPages p) (proc_pageID p) of
           Inl e \<Rightarrow> Inl e
         | Inr r \<Rightarrow> runProcess_loop p rest (processOutput[algoID := r])))"

definition runProcess :: "process \<Rightarrow> error + cint list list" where
  "runProcess p = runProcess_loop p mapping (replicate (length mapping + 1) [- 1, - 1])"

subsection \<open>analyze\<close>

record analyze =
  an_noOfProcess :: cint
  an_noOfPages :: cint
  an_noOfRAMPages :: cint
  curOutput :: "cint list list"

definition createAnalyze :: "cint \<Rightarrow> cint \<Rightarrow> cint \<Rightarrow> cint \<Rightarrow> analyze" where
  "createAnalyze noOfProcess RAMSize processSize pageSize =
     (let noOfPages = (if pageSize = 0 then - 1 else c_div (processSize + pageSize - 1) pageSize);
          noOfRAMPages = (if pageSize = 0 then - 1 else c_div RAMSize pageSize)
      in \<lparr>an_noOfProcess = noOfProcess, an_noOfPages = noOfPages,
          an_noOfRAMPages = noOfRAMPages, curOutput = []\<rparr>)"

text \<open>
  \<^verbatim>\<open>analyze::mergeOutput\<close>: for every index \<open>i\<close> of the new row, the cell is added to
  the accumulated cell at \<open>i\<close> when there is one (\<^verbatim>\<open>TOTAL\<close> first, then \<^verbatim>\<open>MISS\<close>) and
  pushed otherwise. The first argument is \<^verbatim>\<open>this->curOutput\<close>, the second the
  parameter. A cell is a \<^verbatim>\<open>vector<int>\<close>; the additions read elements 0 and 1 of it.
\<close>

fun mergeOutput :: "cint list list \<Rightarrow> cint list list \<Rightarrow> error + cint list list" where
  "mergeOutput acc [] = Inr acc"
| "mergeOutput [] (c # cs) = Inr (c # cs)"
| "mergeOutput (a # acc) (c # cs) =
     (if TOTAL < length a \<and> TOTAL < length c then
        (case mergeOutput acc cs of
           Inl e \<Rightarrow> Inl e
         | Inr rest \<Rightarrow> Inr (a[TOTAL := a ! TOTAL + c ! TOTAL, MISS := a ! MISS + c ! MISS] # rest))
      else Inl CellOutOfRange)"

text \<open>
  \<^verbatim>\<open>analyze::runProcesses\<close>: \<open>noOfProcess\<close> rounds of create, run and merge, then the
  accumulated row is pushed onto \<^verbatim>\<open>mainOutput\<close> of the current output object.
\<close>

fun runProcesses_loop :: "rand_source \<Rightarrow> nat \<Rightarrow> analyze \<Rightarrow> nat \<Rightarrow> error + analyze \<times> nat" where
  "runProcesses_loop rnd k a 0 = Inr (a, k)"
| "runProcesses_loop rnd k a (Suc n) =
     (case createProcess rnd k (an_noOfPages a) (an_noOfRAMPages a) of
        (curProcess, k') \<Rightarrow>
          (case runProcess curProcess of
             Inl e \<Rightarrow> Inl e
           | Inr processOutput \<Rightarrow>
               (case mergeOutput (curOutput a) processOutput of
                  Inl e \<Rightarrow> Inl e
                | Inr merged \<Rightarrow> runProcesses_loop rnd k' (a\<lparr>curOutput := merged\<rparr>) n)))"

definition runProcesses :: "rand_source \<Rightarrow> nat \<Rightarrow> analyze \<Rightarrow> cint list list list \<Rightarrow>
    error + cint list list list \<times> nat" where
  "runProcesses rnd k a mainOutput =
     (case runProcesses_loop rnd k a (nat (sint (an_noOfProcess a))) of
        Inl e \<Rightarrow> Inl e
      | Inr (a', k') \<Rightarrow> Inr (mainOutput @ [curOutput a'], k'))"

text \<open>
  Merging a sequence of process rows into an accumulated row, one after the other, as the
  loop of \<^verbatim>\<open>runProcesses\<close> does with the rows its processes return.
\<close>

fun mergeOutputs :: "cint list list \<Rightarrow> cint list list list \<Rightarrow> error + cint list list" where
  "mergeOutputs acc [] = Inr acc"
| "mergeOutputs acc (row # rows) =
     (case mergeOutput acc row of
        Inl e \<Rightarrow> Inl e
      | Inr merged \<Rightarrow> mergeOutputs merged rows)"

section \<open>The runs of FIFO over an unspecified hash-set layout\<close>

text \<open>
  The C++ standard does not fix how an \<^verbatim>\<open>unordered_set\<close> arranges its elements, so two
  runs of \<^verbatim>\<open>FIFO::processRAM\<close> may hold the same residents in different layouts. A run
  is described here with the resident set held as any list of its elements without
  duplicates: \<^verbatim>\<open>insert\<close> and \<^verbatim>\<open>erase\<close> may leave every such list of the new
  contents, \<^verbatim>\<open>count\<close> and \<^verbatim>\<open>size\<close> read membership and length. The queue and the
  counter are as in \<open>FIFO_step\<close>. \<open>FIFO_run\<close> relates the arguments of
  \<^verbatim>\<open>processRAM\<close> to every outcome that some run produces.
\<close>

record fifo_run_state =
  run_missCount :: cint
  run_cache :: "cint list"
  run_order :: "cint list"

inductive FIFO_run_step :: "cint \<Rightarrow> cint \<Rightarrow> fifo_run_state \<Rightarrow> error + fifo_run_state \<Rightarrow> bool"
  for noOfRAMPages pid where
  hit:
    "pid \<in> set (run_cache s) \<Longrightarrow> FIFO_run_step noOfRAMPages pid s (Inr s)"
| miss_insert:
    "pid \<notin> set (run_cache s) \<Longrightarrow> int (length (run_cache s)) \<noteq> sint noOfRAMPages \<Longrightarrow>
     distinct cache' \<Longrightarrow> set cache' = insert pid (set (run_cache s)) \<Longrightarrow>
     FIFO_run_step noOfRAMPages pid s
       (Inr \<lparr>run_missCount = run_missCount s + 1, run_cache = cache',
             run_order = run_order s @ [pid]\<rparr>)"
| miss_evict:
    "pid \<notin> set (run_cache s) \<Longrightarrow> int (length (run_cache s)) = sint noOfRAMPages \<Longrightarrow>
     run_order s = front # rest \<Longrightarrow>
     distinct cache' \<Longrightarrow> set cache' = insert pid (set (run_cache s) - {front}) \<Longrightarrow>
     FIFO_run_step noOfRAMPages pid s
       (Inr \<lparr>run_missCount = run_missCount s + 1, run_cache = cache',
             run_order = rest @ [pid]\<rparr>)"
| miss_undefined:
    "pid \<notin> set (run_cache s) \<Longrightarrow> int (length (run_cache s)) = sint noOfRAMPages \<Longrightarrow>
     run_order s = [] \<Longrightarrow>
     FIFO_run_step noOfRAMPages pid s (Inl EmptyQueueFront)"

inductive FIFO_run_loop :: "cint \<Rightarrow> cint list \<Rightarrow> fifo_run_state \<Rightarrow> error + fifo_run_state \<Rightarrow> bool"
  for noOfRAMPages where
  finished:
    "FIFO_run_loop noOfRAMPages [] s (Inr s)"
| stopped:
    "FIFO_run_step noOfRAMPages pid s (Inl e) \<Longrightarrow>
     FIFO_run_loop noOfRAMPages (pid # rest) s (Inl e)"
| continued:
    "FIFO_run_step noOfRAMPages pid s (Inr s') \<Longrightarrow> FIFO_run_loop noOfRAMPages rest s' r \<Longrightarrow>
     FIFO_run_loop noOfRAMPages (pid # rest) s r"

definition fifo_run_init :: fifo_run_state where
  "fifo_run_init = \<lparr>run_missCount = 0, run_cache = [], run_order = []\<rparr>"

inductive FIFO_run :: "cint \<Rightarrow> cint \<Rightarrow> cint list \<Rightarrow> error + cint list \<Rightarrow> bool" where
  returned:
    "FIFO_run_loop noOfRAMPages pageID fifo_run_init (Inr s) \<Longrightarrow>
     FIFO_run noOfPages noOfRAMPages pageID (Inr [run_missCount s, of_nat (length pageID)])"
| undefined_run:
    "FIFO_run_loop noOfRAMPages pageID fifo_run_init (Inl e) \<Longrightarrow>
     FIFO_run noOfPages noOfRAMPages pageID (Inl e)"

text \<open>The set and queue that a run state stands for.\<close>

definition fifo_abs :: "fifo_run_state \<Rightarrow> fifo_state" where
  "fifo_abs s = \<lparr>missCount = run_missCount s, cache = set (run_cache s), order = run_order s\<rparr>"

section \<open>Invariants of the policy loops\<close>

text \<open>
  FIFO: the queue lists the residents, each once, and they fit into the frames.
\<close>

definition fifo_inv :: "cint \<Rightarrow> fifo_state \<Rightarrow> bool" where
  "fifo_inv c s \<longleftrightarrow>
     finite (cache s) \<and> set (order s) = cache s \<and> distinct (order s) \<and>
     int (card (cache s)) \<le> sint c"

text \<open>
  LRU and MRU, before the iteration of index \<open>i\<close>: the residents fit into the frames,
  each was last used at an index below \<open>i\<close>, and no two at the same one.
\<close>

definition lru_inv :: "cint \<Rightarrow> nat \<Rightarrow> lru_state \<Rightarrow> bool" where
  "lru_inv c i s \<longleftrightarrow>
     finite (cache s) \<and> int (card (cache s)) \<le> sint c \<and>
     (\<forall>p \<in> cache s. \<exists>j < i. lastUsed s p = of_nat j) \<and>
     inj_on (lastUsed s) (cache s)"

text \<open>
  OPT. \<open>next_occ pageID i p\<close> is the first index from \<open>i\<close> on at which the trace
  refers to \<open>p\<close>, and the length of the trace when there is none. The lookahead loop,
  with the indices from \<open>k\<close> on visited, has filled the table for them and holds in
  \<^verbatim>\<open>futureIndex\<close> the first occurrence from \<open>k\<close> on of every page (\<open>next_ok\<close>).
  Before the iteration of index \<open>i\<close> of the main loop, \<open>occSet\<close> is the set of the next
  occurrences from \<open>i\<close> on of the residents (\<open>opt_inv\<close>): a set, so the residents that
  never occur again share the one entry \<open>length pageID\<close>.
\<close>

definition next_occ :: "cint list \<Rightarrow> nat \<Rightarrow> cint \<Rightarrow> nat" where
  "next_occ pageID i p = i + length (takeWhile (\<lambda>q. q \<noteq> p) (drop i pageID))"

definition next_ok :: "cint list \<Rightarrow> nat \<Rightarrow> cint list \<times> (cint \<Rightarrow> cint option) \<Rightarrow> bool" where
  "next_ok pageID k st \<longleftrightarrow>
     length (fst st) = length pageID \<and>
     (\<forall>j < length pageID. fst st ! j =
        of_nat (if k \<le> j then next_occ pageID (Suc j) (pageID ! j) else length pageID)) \<and>
     (\<forall>p. snd st p =
        (if next_occ pageID k p < length pageID then Some (of_nat (next_occ pageID k p))
         else None))"

definition opt_inv :: "cint list \<Rightarrow> nat \<Rightarrow> opt_state \<Rightarrow> bool" where
  "opt_inv pageID i s \<longleftrightarrow>
     finite (cache s) \<and> occSet s = (\<lambda>p. int (next_occ pageID i p)) ` cache s"





section \<open>Facts about machine integers\<close>

lemma sint_of_nat_cint: "n < 2 ^ 31 \<Longrightarrow> sint (of_nat n :: cint) = int n"
  by (simp add: signed_of_nat signed_take_bit_int_eq_self)

text \<open>
  A vector of fewer than \<open>2 ^ 31\<close> elements has a size that \<^verbatim>\<open>int total\<close> holds
  exactly, and the loops over \<open>i < total\<close> visit all of it.
\<close>

lemma LRU_processRAM_short:
  "length pageID < 2 ^ 31 \<Longrightarrow>
   LRU_processRAM noOfPages noOfRAMPages pageID =
     (case LRU_loop noOfRAMPages 0 pageID lru_init of
        Inl e \<Rightarrow> Inl e
      | Inr s \<Rightarrow> Inr [missCount s, of_nat (length pageID)])"
  by (simp add: LRU_processRAM_def Let_def sint_of_nat_cint)

lemma MRU_processRAM_short:
  "length pageID < 2 ^ 31 \<Longrightarrow>
   MRU_processRAM noOfPages noOfRAMPages pageID =
     (case MRU_loop noOfRAMPages 0 pageID lru_init of
        Inl e \<Rightarrow> Inl e
      | Inr s \<Rightarrow> Inr [missCount s, of_nat (length pageID)])"
  by (simp add: MRU_processRAM_def Let_def sint_of_nat_cint)

lemma OPT_processRAM_short:
  "length pageID < 2 ^ 31 \<Longrightarrow>
   OPT_processRAM noOfPages noOfRAMPages pageID =
     (case OPT_loop noOfRAMPages pageID
             (fst (OPT_next pageID (length pageID)
                (replicate (length pageID) (of_nat (length pageID)), Map.empty)))
             0 (length pageID) opt_init of
        Inl e \<Rightarrow> Inl e
      | Inr s \<Rightarrow> Inr [missCount s, of_nat (length pageID)])"
  by (simp add: OPT_processRAM_def Let_def sint_of_nat_cint)


section \<open>The run past the read agrees with the run that stops there\<close>

lemma OPT_step_read_same:
  "OPT_step noOfRAMPages pageID nxt i s = Inr s' \<Longrightarrow>
   OPT_step_read stray noOfRAMPages pageID nxt i s = Inr s'"
  by (auto simp: OPT_step_def OPT_step_read_def Let_def split: if_splits)

lemma OPT_loop_read_same:
  "OPT_loop noOfRAMPages pageID nxt i k s = Inr s' \<Longrightarrow>
   OPT_loop_read stray noOfRAMPages pageID nxt i k s = Inr s'"
proof (induction k arbitrary: i s)
  case 0
  then show ?case by simp
next
  case (Suc k)
  then obtain s1 where s1: "OPT_step noOfRAMPages pageID nxt i s = Inr s1"
    by (cases "OPT_step noOfRAMPages pageID nxt i s") auto
  then show ?case using Suc OPT_step_read_same [OF s1, of stray] by simp
qed

lemma OPT_processRAM_read_same:
  "OPT_processRAM noOfPages noOfRAMPages pageID = Inr r \<Longrightarrow>
   OPT_processRAM_read stray noOfPages noOfRAMPages pageID = Inr r"
  by (auto simp: OPT_processRAM_def OPT_processRAM_read_def Let_def
      split: if_splits sum.splits dest: OPT_loop_read_same [where stray = stray])


section \<open>OPT and the "never again" sentinel\<close>

text \<open>
  C1. The claim: the ordered structure of OPT keeps one entry per resident even when two
  residents share a next-occurrence index, and every eviction reads a trace position
  below the length of the trace. The code's \<^verbatim>\<open>set<int> occSet\<close> holds an index once:
  on the trace 1, 2, 3 with two frames the lookahead table is 3, 3, 3 (no page occurs
  again), after two references the residents are 1 and 2 while \<open>occSet\<close> holds the single
  entry 3, and the third reference evicts at \<^verbatim>\<open>removeAt = 3\<close>, the length of the trace:
  \<^verbatim>\<open>pageID[3]\<close> is a read outside the vector. (The same happens on every trace with
  more distinct pages than frames: \<open>OPT_processRAM_cases\<close> below.)
\<close>

theorem OPT_sentinel_collision:
  "fst (OPT_next [1, 2, 3] 3 (replicate 3 3, Map.empty)) = [3, 3, 3] \<and>
   OPT_loop 2 [1, 2, 3] [3, 3, 3] 0 2 opt_init =
     Inr \<lparr>missCount = 2, cache = {1, 2}, occSet = {3}\<rparr> \<and>
   OPT_step 2 [1, 2, 3] [3, 3, 3] 2 \<lparr>missCount = 2, cache = {1, 2}, occSet = {3}\<rparr> =
     Inl (IndexOutOfRange 3 3) \<and>
   OPT_processRAM 3 2 [1, 2, 3] = Inl (IndexOutOfRange 3 3)"
  by code_simp

text \<open>
  C8. The claim: with at least one frame, every policy keeps at most \<open>frameCapacity\<close>
  residents after every step, a miss on a full set evicting exactly one resident. OPT's
  eviction erases \<^verbatim>\<open>pageID[removeAt]\<close>; on the trace 5, 6, 5, 6 with one frame the
  fourth reference finds the resident 5 with the sentinel 4 as its next occurrence, and
  the page to erase is read outside the vector: no resident is known to leave before 6
  enters. (FIFO, LRU and MRU keep the bound: \<open>FIFO_resident_bound\<close>,
  \<open>LRU_resident_bound\<close> and \<open>MRU_resident_bound\<close> below.)
\<close>

theorem OPT_eviction_undefined:
  "OPT_loop 1 [5, 6, 5, 6] [2, 3, 4, 4] 0 3 opt_init =
     Inr \<lparr>missCount = 3, cache = {5}, occSet = {4}\<rparr> \<and>
   OPT_step 1 [5, 6, 5, 6] [2, 3, 4, 4] 3 \<lparr>missCount = 3, cache = {5}, occSet = {4}\<rparr> =
     Inl (IndexOutOfRange 4 4) \<and>
   OPT_processRAM 2 1 [5, 6, 5, 6] = Inl (IndexOutOfRange 4 4)"
  by code_simp

section \<open>FIFO, LRU and MRU keep the resident set within the frames\<close>

text \<open>
  With at least one frame, FIFO never meets an empty queue when the set is full, and its
  resident set holds at most \<open>noOfRAMPages\<close> identifiers after every iteration: after
  any number \<open>k\<close> of references (\<open>FIFO_resident_bound\<close>).
\<close>

lemma FIFO_step_bounded:
  assumes "1 \<le> sint c" "fifo_inv c s"
  shows "\<exists>s'. FIFO_step c x s = Inr s' \<and> fifo_inv c s'"
proof (cases "x \<in> cache s")
  case True
  then show ?thesis using assms by (simp add: FIFO_step_def)
next
  case miss: False
  have inv: "finite (cache s)" "set (order s) = cache s" "distinct (order s)"
    "int (card (cache s)) \<le> sint c"
    using assms(2) by (simp_all add: fifo_inv_def)
  show ?thesis
  proof (cases "int (card (cache s)) = sint c")
    case False
    then show ?thesis using miss inv by (simp add: FIFO_step_def Let_def fifo_inv_def)
  next
    case full: True
    then have "cache s \<noteq> {}" using assms(1) by auto
    then obtain front rest where o: "order s = front # rest"
      using inv(2) by (cases "order s") auto
    have f: "front \<in> cache s" "front \<notin> set rest" "set rest = cache s - {front}"
      using o inv(2,3) by auto
    have "card (insert x (cache s - {front})) = card (cache s)"
      using miss f(1) inv(1) \<open>cache s \<noteq> {}\<close>
      by (simp add: card_Diff_singleton card_gt_0_iff Suc_pred')
    then show ?thesis using miss full o f inv
      by (simp add: FIFO_step_def Let_def fifo_inv_def)
  qed
qed

lemma FIFO_loop_bounded:
  assumes "1 \<le> sint c" "fifo_inv c s"
  shows "\<exists>s'. FIFO_loop c xs s = Inr s' \<and> fifo_inv c s'"
  using assms(2)
proof (induction xs arbitrary: s)
  case Nil
  then show ?case by simp
next
  case (Cons x xs)
  from FIFO_step_bounded [OF assms(1) Cons.prems, of x] obtain s1
    where "FIFO_step c x s = Inr s1" "fifo_inv c s1" by blast
  then show ?case using Cons.IH [of s1] by simp
qed

lemma FIFO_resident_bound:
  assumes "1 \<le> sint noOfRAMPages"
  shows "\<exists>s. FIFO_loop noOfRAMPages (take k pageID) fifo_init = Inr s \<and>
    int (card (cache s)) \<le> sint noOfRAMPages"
proof -
  have "fifo_inv noOfRAMPages fifo_init" using assms by (simp add: fifo_inv_def fifo_init_def)
  from FIFO_loop_bounded [OF assms this, of "take k pageID"] show ?thesis
    by (auto simp: fifo_inv_def)
qed

text \<open>
  LRU and MRU on a trace of fewer than \<open>2 ^ 31\<close> references: every resident's last-used
  index is below \<open>INT_MAX\<close> and above \<open>-1\<close>, so the scan of a full set assigns a victim,
  and the victim is a resident. The last-used indices of two residents differ, so the
  victim is the same in whatever order the hash set is iterated
  (\<open>LRU_victim_any_order\<close>, \<open>MRU_victim_any_order\<close>).
\<close>

lemma inj_on_touch:
  assumes "inj_on lu A" "\<forall>p \<in> A. \<exists>j < i. lu p = of_nat j" "i < 2 ^ 31" "B \<subseteq> insert x A"
  shows "inj_on (lu(x := of_nat i :: cint)) B"
proof (rule inj_onI)
  fix p q assume pq: "p \<in> B" "q \<in> B" "(lu(x := of_nat i)) p = (lu(x := of_nat i)) q"
  have fresh: "lu r \<noteq> of_nat i" if "r \<in> A" for r
  proof
    assume e: "lu r = of_nat i"
    from that assms(2) obtain j where j: "j < i" "lu r = of_nat j" by blast
    then have "sint (of_nat j :: cint) = int j" "sint (of_nat i :: cint) = int i"
      using assms(3) by (simp_all add: sint_of_nat_cint)
    then show False using e j by simp
  qed
  show "p = q"
  proof (cases "p = x")
    case True
    then show ?thesis using pq fresh [of q] assms(4) by (cases "q = x") auto
  next
    case False
    then have "p \<in> A" using pq(1) assms(4) by auto
    show ?thesis
    proof (cases "q = x")
      case True
      then show ?thesis using pq False fresh [OF \<open>p \<in> A\<close>] by simp
    next
      case qx: False
      then have "q \<in> A" using pq(2) assms(4) by auto
      then show ?thesis using pq False qx \<open>p \<in> A\<close> assms(1) by (auto dest: inj_onD)
    qed
  qed
qed

lemma LRU_scan_finds:
  assumes "v = None \<longrightarrow> lru = INT_MAX" "\<forall>p \<in> set ps. sint (lu p) < sint INT_MAX"
  shows "case snd (LRU_scan lu ps (lru, v)) of
           None \<Rightarrow> v = None \<and> ps = []
         | Some x \<Rightarrow> x \<in> set ps \<or> v = Some x"
  using assms
proof (induction ps arbitrary: lru v)
  case Nil
  then show ?case by (simp split: option.split)
next
  case (Cons p ps)
  show ?case
  proof (cases "sint (lu p) < sint lru")
    case True
    then show ?thesis using Cons.IH [of "Some p" "lu p"] Cons.prems
      by (auto split: option.splits)
  next
    case False
    then have "v \<noteq> None" using Cons.prems by auto
    then show ?thesis using False Cons.IH [of v lru] Cons.prems
      by (auto split: option.splits)
  qed
qed

lemma LRU_scan_least:
  assumes "LRU_scan lu ps (lru, v) = (lru', v')"
  shows "(\<forall>p \<in> set ps. sint lru' \<le> sint (lu p)) \<and> sint lru' \<le> sint lru \<and>
    ((lru', v') = (lru, v) \<or> (\<exists>p \<in> set ps. v' = Some p \<and> lru' = lu p))"
  using assms
proof (induction ps arbitrary: lru v)
  case Nil
  then show ?case by simp
next
  case (Cons p ps)
  show ?case
  proof (cases "sint (lu p) < sint lru")
    case True
    then have "LRU_scan lu ps (lu p, Some p) = (lru', v')" using Cons.prems by simp
    from Cons.IH [OF this] True show ?thesis by auto
  next
    case False
    then have "LRU_scan lu ps (lru, v) = (lru', v')" using Cons.prems by simp
    from Cons.IH [OF this] False show ?thesis by auto
  qed
qed

lemma LRU_scan_victim:
  assumes "ps \<noteq> []" "\<forall>p \<in> set ps. sint (lu p) < sint INT_MAX"
  shows "\<exists>val \<in> set ps. snd (LRU_scan lu ps (INT_MAX, None)) = Some val \<and>
    (\<forall>p \<in> set ps. sint (lu val) \<le> sint (lu p))"
proof -
  obtain lru' v' where r: "LRU_scan lu ps (INT_MAX, None) = (lru', v')" by force
  have "v' \<noteq> None"
    using LRU_scan_finds [of None INT_MAX ps lu] assms r by (auto split: option.splits)
  then show ?thesis using LRU_scan_least [OF r] r by auto
qed

lemma LRU_scan_any_order:
  assumes "set qs = set ps" "inj_on lu (set ps)" "\<forall>p \<in> set ps. sint (lu p) < sint INT_MAX"
  shows "snd (LRU_scan lu qs (INT_MAX, None)) = snd (LRU_scan lu ps (INT_MAX, None))"
proof (cases "ps = []")
  case True
  then show ?thesis using assms(1) by simp
next
  case False
  then have "qs \<noteq> []" using assms(1) by auto
  from LRU_scan_victim [OF False assms(3)] obtain a where a: "a \<in> set ps"
    "snd (LRU_scan lu ps (INT_MAX, None)) = Some a" "\<forall>p \<in> set ps. sint (lu a) \<le> sint (lu p)"
    by blast
  have "\<forall>p \<in> set qs. sint (lu p) < sint INT_MAX" using assms(1,3) by simp
  from LRU_scan_victim [OF \<open>qs \<noteq> []\<close> this] obtain b where "b \<in> set qs"
    "snd (LRU_scan lu qs (INT_MAX, None)) = Some b" "\<forall>p \<in> set qs. sint (lu b) \<le> sint (lu p)"
    by blast
  then have b: "b \<in> set ps"
    "snd (LRU_scan lu qs (INT_MAX, None)) = Some b" "\<forall>p \<in> set ps. sint (lu b) \<le> sint (lu p)"
    using assms(1) by simp_all
  have "sint (lu a) = sint (lu b)" using a b by force
  then have "lu a = lu b" by (rule signed_word_eqI)
  then have "a = b" using assms(2) a(1) b(1) by (auto dest: inj_onD)
  then show ?thesis using a b by simp
qed

lemma MRU_scan_finds:
  assumes "v = None \<longrightarrow> mru = - 1" "\<forall>p \<in> set ps. 0 \<le> sint (lu p)"
  shows "case snd (MRU_scan lu ps (mru, v)) of
           None \<Rightarrow> v = None \<and> ps = []
         | Some x \<Rightarrow> x \<in> set ps \<or> v = Some x"
  using assms
proof (induction ps arbitrary: mru v)
  case Nil
  then show ?case by (simp split: option.split)
next
  case (Cons p ps)
  show ?case
  proof (cases "sint mru < sint (lu p)")
    case True
    then show ?thesis using Cons.IH [of "Some p" "lu p"] Cons.prems
      by (auto split: option.splits)
  next
    case False
    then have "v \<noteq> None" using Cons.prems by auto
    then show ?thesis using False Cons.IH [of v mru] Cons.prems
      by (auto split: option.splits)
  qed
qed

lemma MRU_scan_greatest:
  assumes "MRU_scan lu ps (mru, v) = (mru', v')"
  shows "(\<forall>p \<in> set ps. sint (lu p) \<le> sint mru') \<and> sint mru \<le> sint mru' \<and>
    ((mru', v') = (mru, v) \<or> (\<exists>p \<in> set ps. v' = Some p \<and> mru' = lu p))"
  using assms
proof (induction ps arbitrary: mru v)
  case Nil
  then show ?case by simp
next
  case (Cons p ps)
  show ?case
  proof (cases "sint mru < sint (lu p)")
    case True
    then have "MRU_scan lu ps (lu p, Some p) = (mru', v')" using Cons.prems by simp
    from Cons.IH [OF this] True show ?thesis by auto
  next
    case False
    then have "MRU_scan lu ps (mru, v) = (mru', v')" using Cons.prems by simp
    from Cons.IH [OF this] False show ?thesis by auto
  qed
qed

lemma MRU_scan_victim:
  assumes "ps \<noteq> []" "\<forall>p \<in> set ps. 0 \<le> sint (lu p)"
  shows "\<exists>val \<in> set ps. snd (MRU_scan lu ps (- 1, None)) = Some val \<and>
    (\<forall>p \<in> set ps. sint (lu p) \<le> sint (lu val))"
proof -
  obtain mru' v' where r: "MRU_scan lu ps (- 1, None) = (mru', v')" by force
  have "v' \<noteq> None"
    using MRU_scan_finds [of None "- 1" ps lu] assms r by (auto split: option.splits)
  then show ?thesis using MRU_scan_greatest [OF r] r by auto
qed

lemma MRU_scan_any_order:
  assumes "set qs = set ps" "inj_on lu (set ps)" "\<forall>p \<in> set ps. 0 \<le> sint (lu p)"
  shows "snd (MRU_scan lu qs (- 1, None)) = snd (MRU_scan lu ps (- 1, None))"
proof (cases "ps = []")
  case True
  then show ?thesis using assms(1) by simp
next
  case False
  then have "qs \<noteq> []" using assms(1) by auto
  from MRU_scan_victim [OF False assms(3)] obtain a where a: "a \<in> set ps"
    "snd (MRU_scan lu ps (- 1, None)) = Some a" "\<forall>p \<in> set ps. sint (lu p) \<le> sint (lu a)"
    by blast
  have "\<forall>p \<in> set qs. 0 \<le> sint (lu p)" using assms(1,3) by simp
  from MRU_scan_victim [OF \<open>qs \<noteq> []\<close> this] obtain b where "b \<in> set qs"
    "snd (MRU_scan lu qs (- 1, None)) = Some b" "\<forall>p \<in> set qs. sint (lu p) \<le> sint (lu b)"
    by blast
  then have b: "b \<in> set ps"
    "snd (MRU_scan lu qs (- 1, None)) = Some b" "\<forall>p \<in> set ps. sint (lu p) \<le> sint (lu b)"
    using assms(1) by simp_all
  have "sint (lu a) = sint (lu b)" using a b by force
  then have "lu a = lu b" by (rule signed_word_eqI)
  then have "a = b" using assms(2) a(1) b(1) by (auto dest: inj_onD)
  then show ?thesis using a b by simp
qed

lemma card_swap:
  assumes "finite A" "val \<in> A" "x \<notin> A"
  shows "card (insert x (A - {val})) = card A"
proof -
  have "0 < card A" using assms(1,2) by (auto simp: card_gt_0_iff)
  then show ?thesis using assms by (simp add: card_Diff_singleton)
qed

lemma lru_inv_next:
  assumes "lru_inv c i s" "i < 2 ^ 31"
    and "finite (cache s')" "int (card (cache s')) \<le> sint c"
    and "cache s' \<subseteq> insert x (cache s)" "lastUsed s' = (lastUsed s)(x := of_nat i)"
  shows "lru_inv c (Suc i) s'"
proof -
  have inv: "\<forall>p \<in> cache s. \<exists>j < i. lastUsed s p = of_nat j" "inj_on (lastUsed s) (cache s)"
    using assms(1) by (simp_all add: lru_inv_def)
  have "\<exists>j < Suc i. lastUsed s' p = of_nat j" if "p \<in> cache s'" for p
  proof (cases "p = x")
    case True
    then show ?thesis using assms(6) by auto
  next
    case False
    then have "p \<in> cache s" using that assms(5) by auto
    then obtain j where "j < i" "lastUsed s p = of_nat j" using inv(1) by blast
    then show ?thesis using False assms(6) by (auto intro: less_SucI)
  qed
  moreover have "inj_on (lastUsed s') (cache s')"
    unfolding assms(6) using inv(2,1) assms(2,5) by (rule inj_on_touch)
  ultimately show ?thesis using assms(3,4) by (simp add: lru_inv_def)
qed

lemma LRU_step_bounded:
  assumes "1 \<le> sint c" "lru_inv c i s" "i < 2 ^ 31 - 1"
  shows "\<exists>s'. LRU_step c (of_nat i) x s = Inr s' \<and> lru_inv c (Suc i) s'"
proof -
  have i: "i < 2 ^ 31" using assms(3) by simp
  note step = lru_inv_next [OF assms(2) i, where x = x]
  have inv: "finite (cache s)" "int (card (cache s)) \<le> sint c"
    "\<forall>p \<in> cache s. \<exists>j < i. lastUsed s p = of_nat j"
    using assms(2) by (simp_all add: lru_inv_def)
  show ?thesis
  proof (cases "x \<in> cache s")
    case True
    have "LRU_step c (of_nat i) x s = Inr (s\<lparr>lastUsed := (lastUsed s)(x := of_nat i)\<rparr>)"
      using True by (simp add: LRU_step_def)
    moreover have "lru_inv c (Suc i) (s\<lparr>lastUsed := (lastUsed s)(x := of_nat i)\<rparr>)"
      using inv by (intro step) auto
    ultimately show ?thesis by blast
  next
    case miss: False
    show ?thesis
    proof (cases "int (card (cache s)) = sint c")
      case False
      have "LRU_step c (of_nat i) x s =
          Inr (s\<lparr>missCount := missCount s + 1, cache := insert x (cache s),
                 lastUsed := (lastUsed s)(x := of_nat i)\<rparr>)"
        using miss False by (simp add: LRU_step_def Let_def)
      moreover have "lru_inv c (Suc i)
          (s\<lparr>missCount := missCount s + 1, cache := insert x (cache s),
              lastUsed := (lastUsed s)(x := of_nat i)\<rparr>)"
        using inv miss False by (intro step) auto
      ultimately show ?thesis by blast
    next
      case full: True
      then have ne: "cache s \<noteq> {}" using assms(1) by auto
      have old: "sint (lastUsed s p) < sint INT_MAX" if "p \<in> cache s" for p
      proof -
        from that inv(3) obtain j where j: "j < i" "lastUsed s p = of_nat j" by blast
        then have "j < 2 ^ 31" using assms(3) by simp
        then have "sint (of_nat j :: cint) = int j" by (rule sint_of_nat_cint)
        then show ?thesis using j assms(3) by (simp add: INT_MAX_def)
      qed
      have "sorted_list_of_set (cache s) \<noteq> []" using ne inv(1) by simp
      then obtain val where val:
        "snd (LRU_scan (lastUsed s) (sorted_list_of_set (cache s)) (INT_MAX, None)) = Some val"
        "val \<in> cache s"
        using LRU_scan_finds [of None INT_MAX "sorted_list_of_set (cache s)" "lastUsed s"]
          old inv(1)
        by (auto split: option.splits)
      have card: "card (insert x (cache s - {val})) = card (cache s)"
        using inv(1) val(2) miss by (rule card_swap)
      have "LRU_step c (of_nat i) x s =
          Inr (s\<lparr>missCount := missCount s + 1, cache := insert x (cache s - {val}),
                 lastUsed := (lastUsed s)(x := of_nat i)\<rparr>)"
        using miss full val(1) by (simp add: LRU_step_def Let_def)
      moreover have "lru_inv c (Suc i)
          (s\<lparr>missCount := missCount s + 1, cache := insert x (cache s - {val}),
              lastUsed := (lastUsed s)(x := of_nat i)\<rparr>)"
        using inv card by (intro step) auto
      ultimately show ?thesis by blast
    qed
  qed
qed

lemma MRU_step_bounded:
  assumes "1 \<le> sint c" "lru_inv c i s" "i < 2 ^ 31 - 1"
  shows "\<exists>s'. MRU_step c (of_nat i) x s = Inr s' \<and> lru_inv c (Suc i) s'"
proof -
  have i: "i < 2 ^ 31" using assms(3) by simp
  note step = lru_inv_next [OF assms(2) i, where x = x]
  have inv: "finite (cache s)" "int (card (cache s)) \<le> sint c"
    "\<forall>p \<in> cache s. \<exists>j < i. lastUsed s p = of_nat j"
    using assms(2) by (simp_all add: lru_inv_def)
  show ?thesis
  proof (cases "x \<in> cache s")
    case True
    have "MRU_step c (of_nat i) x s = Inr (s\<lparr>lastUsed := (lastUsed s)(x := of_nat i)\<rparr>)"
      using True by (simp add: MRU_step_def)
    moreover have "lru_inv c (Suc i) (s\<lparr>lastUsed := (lastUsed s)(x := of_nat i)\<rparr>)"
      using inv by (intro step) auto
    ultimately show ?thesis by blast
  next
    case miss: False
    show ?thesis
    proof (cases "int (card (cache s)) = sint c")
      case False
      have "MRU_step c (of_nat i) x s =
          Inr (s\<lparr>missCount := missCount s + 1, cache := insert x (cache s),
                 lastUsed := (lastUsed s)(x := of_nat i)\<rparr>)"
        using miss False by (simp add: MRU_step_def Let_def)
      moreover have "lru_inv c (Suc i)
          (s\<lparr>missCount := missCount s + 1, cache := insert x (cache s),
              lastUsed := (lastUsed s)(x := of_nat i)\<rparr>)"
        using inv miss False by (intro step) auto
      ultimately show ?thesis by blast
    next
      case full: True
      then have ne: "cache s \<noteq> {}" using assms(1) by auto
      have old: "0 \<le> sint (lastUsed s p)" if "p \<in> cache s" for p
      proof -
        from that inv(3) obtain j where j: "j < i" "lastUsed s p = of_nat j" by blast
        then have "j < 2 ^ 31" using assms(3) by simp
        then have "sint (of_nat j :: cint) = int j" by (rule sint_of_nat_cint)
        then show ?thesis using j assms(3) by simp
      qed
      have "sorted_list_of_set (cache s) \<noteq> []" using ne inv(1) by simp
      then obtain val where val:
        "snd (MRU_scan (lastUsed s) (sorted_list_of_set (cache s)) (- 1, None)) = Some val"
        "val \<in> cache s"
        using MRU_scan_finds [of None "- 1" "sorted_list_of_set (cache s)" "lastUsed s"]
          old inv(1)
        by (auto split: option.splits)
      have card: "card (insert x (cache s - {val})) = card (cache s)"
        using inv(1) val(2) miss by (rule card_swap)
      have "MRU_step c (of_nat i) x s =
          Inr (s\<lparr>missCount := missCount s + 1, cache := insert x (cache s - {val}),
                 lastUsed := (lastUsed s)(x := of_nat i)\<rparr>)"
        using miss full val(1) by (simp add: MRU_step_def Let_def)
      moreover have "lru_inv c (Suc i)
          (s\<lparr>missCount := missCount s + 1, cache := insert x (cache s - {val}),
              lastUsed := (lastUsed s)(x := of_nat i)\<rparr>)"
        using inv card by (intro step) auto
      ultimately show ?thesis by blast
    qed
  qed
qed

lemma LRU_loop_bounded:
  assumes "1 \<le> sint c" "lru_inv c i s" "i + length xs < 2 ^ 31"
  shows "\<exists>s'. LRU_loop c i xs s = Inr s' \<and> lru_inv c (i + length xs) s'"
  using assms(2,3)
proof (induction xs arbitrary: i s)
  case Nil
  then show ?case by simp
next
  case (Cons x xs)
  have "i < 2 ^ 31 - 1" using Cons.prems(2) by simp
  from LRU_step_bounded [OF assms(1) Cons.prems(1) this, of x] obtain s1
    where s1: "LRU_step c (of_nat i) x s = Inr s1" "lru_inv c (Suc i) s1" by blast
  have "\<exists>s'. LRU_loop c (Suc i) xs s1 = Inr s' \<and> lru_inv c (Suc i + length xs) s'"
    using s1(2) Cons.prems(2) by (intro Cons.IH) simp_all
  then show ?case using s1 by simp
qed

lemma MRU_loop_bounded:
  assumes "1 \<le> sint c" "lru_inv c i s" "i + length xs < 2 ^ 31"
  shows "\<exists>s'. MRU_loop c i xs s = Inr s' \<and> lru_inv c (i + length xs) s'"
  using assms(2,3)
proof (induction xs arbitrary: i s)
  case Nil
  then show ?case by simp
next
  case (Cons x xs)
  have "i < 2 ^ 31 - 1" using Cons.prems(2) by simp
  from MRU_step_bounded [OF assms(1) Cons.prems(1) this, of x] obtain s1
    where s1: "MRU_step c (of_nat i) x s = Inr s1" "lru_inv c (Suc i) s1" by blast
  have "\<exists>s'. MRU_loop c (Suc i) xs s1 = Inr s' \<and> lru_inv c (Suc i + length xs) s'"
    using s1(2) Cons.prems(2) by (intro Cons.IH) simp_all
  then show ?case using s1 by simp
qed

lemma LRU_resident_bound:
  assumes "1 \<le> sint noOfRAMPages" "length pageID < 2 ^ 31"
  shows "\<exists>s. LRU_loop noOfRAMPages 0 (take k pageID) lru_init = Inr s \<and>
    int (card (cache s)) \<le> sint noOfRAMPages"
proof -
  have "lru_inv noOfRAMPages 0 lru_init" using assms(1) by (simp add: lru_inv_def lru_init_def)
  moreover have "0 + length (take k pageID) < 2 ^ 31" using assms(2) by simp
  ultimately show ?thesis
    using LRU_loop_bounded [OF assms(1), of 0 lru_init "take k pageID"]
    by (auto simp: lru_inv_def)
qed

lemma MRU_resident_bound:
  assumes "1 \<le> sint noOfRAMPages" "length pageID < 2 ^ 31"
  shows "\<exists>s. MRU_loop noOfRAMPages 0 (take k pageID) lru_init = Inr s \<and>
    int (card (cache s)) \<le> sint noOfRAMPages"
proof -
  have "lru_inv noOfRAMPages 0 lru_init" using assms(1) by (simp add: lru_inv_def lru_init_def)
  moreover have "0 + length (take k pageID) < 2 ^ 31" using assms(2) by simp
  ultimately show ?thesis
    using MRU_loop_bounded [OF assms(1), of 0 lru_init "take k pageID"]
    by (auto simp: lru_inv_def)
qed



lemma LRU_victim_any_order:
  assumes "lru_inv c i s" "i < 2 ^ 31" "set ps = cache s"
  shows "snd (LRU_scan (lastUsed s) ps (INT_MAX, None)) =
    snd (LRU_scan (lastUsed s) (sorted_list_of_set (cache s)) (INT_MAX, None))"
proof -
  have inv: "finite (cache s)" "\<forall>p \<in> cache s. \<exists>j < i. lastUsed s p = of_nat j"
    "inj_on (lastUsed s) (cache s)"
    using assms(1) by (simp_all add: lru_inv_def)
  have "sint (lastUsed s p) < sint INT_MAX" if "p \<in> cache s" for p
  proof -
    from that inv(2) obtain j where j: "j < i" "lastUsed s p = of_nat j" by blast
    then have "j < 2 ^ 31" using assms(2) by simp
    then have "sint (of_nat j :: cint) = int j" by (rule sint_of_nat_cint)
    then show ?thesis using j assms(2) by (simp add: INT_MAX_def)
  qed
  then show ?thesis using inv assms(3)
    by (intro LRU_scan_any_order) simp_all
qed

lemma MRU_victim_any_order:
  assumes "lru_inv c i s" "i < 2 ^ 31" "set ps = cache s"
  shows "snd (MRU_scan (lastUsed s) ps (- 1, None)) =
    snd (MRU_scan (lastUsed s) (sorted_list_of_set (cache s)) (- 1, None))"
proof -
  have inv: "finite (cache s)" "\<forall>p \<in> cache s. \<exists>j < i. lastUsed s p = of_nat j"
    "inj_on (lastUsed s) (cache s)"
    using assms(1) by (simp_all add: lru_inv_def)
  have "0 \<le> sint (lastUsed s p)" if "p \<in> cache s" for p
  proof -
    from that inv(2) obtain j where j: "j < i" "lastUsed s p = of_nat j" by blast
    then have "j < 2 ^ 31" using assms(2) by simp
    then have "sint (of_nat j :: cint) = int j" by (rule sint_of_nat_cint)
    then show ?thesis using j by simp
  qed
  then show ?thesis using inv assms(3)
    by (intro MRU_scan_any_order) simp_all
qed

section \<open>Capacity at least the number of distinct pages\<close>

text \<open>A set that misses an element of \<open>S\<close> is not full when \<open>S\<close> fits into the frames.\<close>

lemma not_full:
  assumes "finite S" "A \<subseteq> S" "x \<in> S" "x \<notin> A" "int (card S) \<le> sint c"
  shows "int (card A) \<noteq> sint (c :: cint)"
proof -
  have "A \<subset> S" using assms by auto
  then have "card A < card S" using assms(1) by (rule psubset_card_mono [rotated])
  then show ?thesis using assms(5) by simp
qed

lemma FIFO_step_roomy:
  assumes "finite S" "cache s \<subseteq> S" "x \<in> S" "int (card S) \<le> sint c"
    "missCount s = of_nat (card (cache s))"
  shows "\<exists>s'. FIFO_step c x s = Inr s' \<and> cache s' = insert x (cache s) \<and>
    missCount s' = of_nat (card (cache s'))"
proof (cases "x \<in> cache s")
  case True
  then show ?thesis using assms by (simp add: FIFO_step_def insert_absorb)
next
  case False
  have fin: "finite (cache s)" using assms(1,2) by (rule rev_finite_subset)
  have "int (card (cache s)) \<noteq> sint c" using assms False by (intro not_full [of S]) auto
  then show ?thesis using False fin assms(5) by (simp add: FIFO_step_def Let_def)
qed

lemma FIFO_loop_roomy:
  assumes "finite S" "cache s \<subseteq> S" "set xs \<subseteq> S" "int (card S) \<le> sint c"
    "missCount s = of_nat (card (cache s))"
  shows "\<exists>s'. FIFO_loop c xs s = Inr s' \<and> cache s' = cache s \<union> set xs \<and>
    missCount s' = of_nat (card (cache s'))"
  using assms
proof (induction xs arbitrary: s)
  case Nil
  then show ?case by simp
next
  case (Cons x xs)
  from Cons.prems obtain s1 where s1: "FIFO_step c x s = Inr s1" "cache s1 = insert x (cache s)"
    "missCount s1 = of_nat (card (cache s1))"
    using FIFO_step_roomy [of S s x c] by auto
  have "\<exists>s'. FIFO_loop c xs s1 = Inr s' \<and> cache s' = cache s1 \<union> set xs \<and>
    missCount s' = of_nat (card (cache s'))"
    using Cons.prems s1 by (intro Cons.IH) auto
  then show ?case using s1 by auto
qed

lemma LRU_step_roomy:
  assumes "finite S" "cache s \<subseteq> S" "x \<in> S" "int (card S) \<le> sint c"
    "missCount s = of_nat (card (cache s))"
  shows "\<exists>s'. LRU_step c i x s = Inr s' \<and> cache s' = insert x (cache s) \<and>
    missCount s' = of_nat (card (cache s'))"
proof (cases "x \<in> cache s")
  case True
  then show ?thesis using assms by (simp add: LRU_step_def insert_absorb)
next
  case False
  have fin: "finite (cache s)" using assms(1,2) by (rule rev_finite_subset)
  have "int (card (cache s)) \<noteq> sint c" using assms False by (intro not_full [of S]) auto
  then show ?thesis using False fin assms(5) by (simp add: LRU_step_def Let_def)
qed

lemma LRU_loop_roomy:
  assumes "finite S" "cache s \<subseteq> S" "set xs \<subseteq> S" "int (card S) \<le> sint c"
    "missCount s = of_nat (card (cache s))"
  shows "\<exists>s'. LRU_loop c i xs s = Inr s' \<and> cache s' = cache s \<union> set xs \<and>
    missCount s' = of_nat (card (cache s'))"
  using assms
proof (induction xs arbitrary: s i)
  case Nil
  then show ?case by simp
next
  case (Cons x xs)
  from Cons.prems obtain s1 where s1: "LRU_step c (of_nat i) x s = Inr s1"
    "cache s1 = insert x (cache s)" "missCount s1 = of_nat (card (cache s1))"
    using LRU_step_roomy [of S s x c "of_nat i"] by auto
  have "\<exists>s'. LRU_loop c (Suc i) xs s1 = Inr s' \<and> cache s' = cache s1 \<union> set xs \<and>
    missCount s' = of_nat (card (cache s'))"
    using Cons.prems s1 by (intro Cons.IH) auto
  then show ?case using s1 by auto
qed

lemma MRU_step_roomy:
  assumes "finite S" "cache s \<subseteq> S" "x \<in> S" "int (card S) \<le> sint c"
    "missCount s = of_nat (card (cache s))"
  shows "\<exists>s'. MRU_step c i x s = Inr s' \<and> cache s' = insert x (cache s) \<and>
    missCount s' = of_nat (card (cache s'))"
proof (cases "x \<in> cache s")
  case True
  then show ?thesis using assms by (simp add: MRU_step_def insert_absorb)
next
  case False
  have fin: "finite (cache s)" using assms(1,2) by (rule rev_finite_subset)
  have "int (card (cache s)) \<noteq> sint c" using assms False by (intro not_full [of S]) auto
  then show ?thesis using False fin assms(5) by (simp add: MRU_step_def Let_def)
qed

lemma MRU_loop_roomy:
  assumes "finite S" "cache s \<subseteq> S" "set xs \<subseteq> S" "int (card S) \<le> sint c"
    "missCount s = of_nat (card (cache s))"
  shows "\<exists>s'. MRU_loop c i xs s = Inr s' \<and> cache s' = cache s \<union> set xs \<and>
    missCount s' = of_nat (card (cache s'))"
  using assms
proof (induction xs arbitrary: s i)
  case Nil
  then show ?case by simp
next
  case (Cons x xs)
  from Cons.prems obtain s1 where s1: "MRU_step c (of_nat i) x s = Inr s1"
    "cache s1 = insert x (cache s)" "missCount s1 = of_nat (card (cache s1))"
    using MRU_step_roomy [of S s x c "of_nat i"] by auto
  have "\<exists>s'. MRU_loop c (Suc i) xs s1 = Inr s' \<and> cache s' = cache s1 \<union> set xs \<and>
    missCount s' = of_nat (card (cache s'))"
    using Cons.prems s1 by (intro Cons.IH) auto
  then show ?case using s1 by auto
qed

lemma OPT_step_roomy:
  assumes "finite S" "cache s \<subseteq> S" "pageID ! i \<in> S" "int (card S) \<le> sint c"
    "missCount s = of_nat (card (cache s))"
  shows "\<exists>s'. OPT_step c pageID nxt i s = Inr s' \<and> cache s' = insert (pageID ! i) (cache s) \<and>
    missCount s' = of_nat (card (cache s'))"
proof (cases "pageID ! i \<in> cache s")
  case True
  then show ?thesis using assms by (simp add: OPT_step_def insert_absorb)
next
  case False
  have fin: "finite (cache s)" using assms(1,2) by (rule rev_finite_subset)
  have "int (card (cache s)) \<noteq> sint c" using assms False by (intro not_full [of S]) auto
  then show ?thesis using False fin assms(5) by (simp add: OPT_step_def Let_def)
qed

lemma OPT_loop_roomy:
  assumes "finite S" "cache s \<subseteq> S" "set pageID \<subseteq> S" "int (card S) \<le> sint c"
    "missCount s = of_nat (card (cache s))" "i + k \<le> length pageID"
  shows "\<exists>s'. OPT_loop c pageID nxt i k s = Inr s' \<and>
    cache s' = cache s \<union> set (take k (drop i pageID)) \<and>
    missCount s' = of_nat (card (cache s'))"
  using assms
proof (induction k arbitrary: s i)
  case 0
  then show ?case by simp
next
  case (Suc k)
  have i: "i < length pageID" using Suc.prems by simp
  then have "pageID ! i \<in> S" using Suc.prems(3) by auto
  with Suc.prems obtain s1 where s1: "OPT_step c pageID nxt i s = Inr s1"
    "cache s1 = insert (pageID ! i) (cache s)" "missCount s1 = of_nat (card (cache s1))"
    using OPT_step_roomy [of S s pageID i c nxt] by auto
  have "\<exists>s'. OPT_loop c pageID nxt (Suc i) k s1 = Inr s' \<and>
    cache s' = cache s1 \<union> set (take k (drop (Suc i) pageID)) \<and>
    missCount s' = of_nat (card (cache s'))"
    using Suc.prems s1 by (intro Suc.IH) auto
  moreover have "take (Suc k) (drop i pageID) = pageID ! i # take k (drop (Suc i) pageID)"
    using i by (simp add: Cons_nth_drop_Suc [symmetric])
  ultimately show ?case using s1 by auto
qed

text \<open>
  C4. For every trace (a vector whose size the evaluation holds in \<^verbatim>\<open>int total\<close>, so of
  fewer than \<open>2 ^ 31\<close> elements, as every trace that \<open>createProcess\<close> builds is:
  \<open>createProcess_length\<close> below) and every frame capacity that is at least the number of
  distinct identifiers of the trace, each of FIFO, LRU, MRU and OPT returns a miss count
  equal to the number of distinct identifiers, together with the length of the trace.
\<close>

theorem enough_frames:
  assumes "length pageID < 2 ^ 31"
    and "int (card (set pageID)) \<le> sint noOfRAMPages"
  shows "FIFO_processRAM noOfPages noOfRAMPages pageID =
      Inr [of_nat (card (set pageID)), of_nat (length pageID)] \<and>
    LRU_processRAM noOfPages noOfRAMPages pageID =
      Inr [of_nat (card (set pageID)), of_nat (length pageID)] \<and>
    MRU_processRAM noOfPages noOfRAMPages pageID =
      Inr [of_nat (card (set pageID)), of_nat (length pageID)] \<and>
    OPT_processRAM noOfPages noOfRAMPages pageID =
      Inr [of_nat (card (set pageID)), of_nat (length pageID)]"
proof -
  have "\<exists>s'. FIFO_loop noOfRAMPages pageID fifo_init = Inr s' \<and>
      cache s' = cache fifo_init \<union> set pageID \<and> missCount s' = of_nat (card (cache s'))"
    using assms(2) by (intro FIFO_loop_roomy [of "set pageID"]) (simp_all add: fifo_init_def)
  then have fifo: "FIFO_processRAM noOfPages noOfRAMPages pageID =
      Inr [of_nat (card (set pageID)), of_nat (length pageID)]"
    by (auto simp: FIFO_processRAM_def fifo_init_def)
  have "\<exists>s'. LRU_loop noOfRAMPages 0 pageID lru_init = Inr s' \<and>
      cache s' = cache lru_init \<union> set pageID \<and> missCount s' = of_nat (card (cache s'))"
    using assms(2) by (intro LRU_loop_roomy [of "set pageID"]) (simp_all add: lru_init_def)
  then have lru: "LRU_processRAM noOfPages noOfRAMPages pageID =
      Inr [of_nat (card (set pageID)), of_nat (length pageID)]"
    by (auto simp: LRU_processRAM_short [OF assms(1)] lru_init_def)
  have "\<exists>s'. MRU_loop noOfRAMPages 0 pageID lru_init = Inr s' \<and>
      cache s' = cache lru_init \<union> set pageID \<and> missCount s' = of_nat (card (cache s'))"
    using assms(2) by (intro MRU_loop_roomy [of "set pageID"]) (simp_all add: lru_init_def)
  then have mru: "MRU_processRAM noOfPages noOfRAMPages pageID =
      Inr [of_nat (card (set pageID)), of_nat (length pageID)]"
    by (auto simp: MRU_processRAM_short [OF assms(1)] lru_init_def)
  have "\<exists>s'. OPT_loop noOfRAMPages pageID
        (fst (OPT_next pageID (length pageID)
                (replicate (length pageID) (of_nat (length pageID)), Map.empty)))
        0 (length pageID) opt_init = Inr s' \<and>
      cache s' = cache opt_init \<union> set (take (length pageID) (drop 0 pageID)) \<and>
      missCount s' = of_nat (card (cache s'))"
    using assms(2) by (intro OPT_loop_roomy [of "set pageID"]) (simp_all add: opt_init_def)
  then have opt: "OPT_processRAM noOfPages noOfRAMPages pageID =
      Inr [of_nat (card (set pageID)), of_nat (length pageID)]"
    by (auto simp: OPT_processRAM_short [OF assms(1)] opt_init_def)
  from fifo lru mru opt show ?thesis by simp
qed

theorem enough_frames_witness:
  "length [1, 2, 1 :: cint] < 2 ^ 31 \<and> int (card (set [1, 2, 1 :: cint])) \<le> sint (2 :: cint) \<and>
   FIFO_processRAM 2 2 [1, 2, 1] = Inr [2, 3] \<and> LRU_processRAM 2 2 [1, 2, 1] = Inr [2, 3] \<and>
   MRU_processRAM 2 2 [1, 2, 1] = Inr [2, 3] \<and> OPT_processRAM 2 2 [1, 2, 1] = Inr [2, 3]"
proof -
  have h1: "length [1, 2, 1 :: cint] < 2 ^ 31" by simp
  have h2: "int (card (set [1, 2, 1 :: cint])) \<le> sint (2 :: cint)" by (simp add: card_insert_if)
  show ?thesis using h1 h2 enough_frames [OF h1 h2, of 2] by (simp add: card_insert_if)
qed

section \<open>OPT returns only when nothing has to be evicted\<close>

text \<open>The first occurrence from an index on.\<close>

lemma next_occ_bounds:
  "i \<le> length pageID \<Longrightarrow> i \<le> next_occ pageID i p \<and> next_occ pageID i p \<le> length pageID"
proof -
  assume "i \<le> length pageID"
  moreover have "length (takeWhile (\<lambda>q. q \<noteq> p) (drop i pageID)) \<le> length (drop i pageID)"
    by (rule length_takeWhile_le)
  ultimately show ?thesis by (simp add: next_occ_def)
qed

lemma next_occ_here:
  "i < length pageID \<Longrightarrow> pageID ! i = p \<Longrightarrow> next_occ pageID i p = i"
  by (simp add: next_occ_def Cons_nth_drop_Suc [symmetric])

lemma next_occ_later:
  "i < length pageID \<Longrightarrow> pageID ! i \<noteq> p \<Longrightarrow> next_occ pageID i p = next_occ pageID (Suc i) p"
  by (simp add: next_occ_def Cons_nth_drop_Suc [symmetric])

lemma next_occ_end: "next_occ pageID (length pageID) p = length pageID"
  by (simp add: next_occ_def)

lemma next_occ_page:
  assumes "i \<le> length pageID" "next_occ pageID i p < length pageID"
  shows "pageID ! next_occ pageID i p = p"
proof -
  let ?xs = "drop i pageID"
  let ?k = "length (takeWhile (\<lambda>q. q \<noteq> p) ?xs)"
  have k: "?k < length ?xs" using assms by (simp add: next_occ_def)
  then have "\<not> (?xs ! ?k \<noteq> p)" by (rule nth_length_takeWhile)
  then have "?xs ! ?k = p" by simp
  moreover have "?xs ! ?k = pageID ! (i + ?k)" using assms(1) by simp
  ultimately show ?thesis by (simp add: next_occ_def)
qed

lemma next_occ_found:
  assumes "i \<le> j" "j < length pageID" "pageID ! j = p"
  shows "next_occ pageID i p < length pageID"
proof -
  have "p \<in> set (drop i pageID)"
    using assms by (auto simp: in_set_conv_nth intro!: exI [of _ "j - i"])
  then have "takeWhile (\<lambda>q. q \<noteq> p) (drop i pageID) \<noteq> drop i pageID"
    by (simp add: takeWhile_eq_all_conv)
  then have "length (takeWhile (\<lambda>q. q \<noteq> p) (drop i pageID)) \<noteq> length (drop i pageID)"
    by (metis takeWhile_eq_take take_all order_refl)
  moreover have "length (takeWhile (\<lambda>q. q \<noteq> p) (drop i pageID)) \<le> length (drop i pageID)"
    by (rule length_takeWhile_le)
  ultimately have "length (takeWhile (\<lambda>q. q \<noteq> p) (drop i pageID)) < length (drop i pageID)"
    by simp
  then show ?thesis using assms by (simp add: next_occ_def)
qed


text \<open>The lookahead loop computes the table of next occurrences.\<close>

lemma next_ok_init:
  "next_ok pageID (length pageID)
     (replicate (length pageID) (of_nat (length pageID)), Map.empty)"
  by (simp add: next_ok_def next_occ_end)

lemma next_ok_step:
  assumes "i < length pageID" "next_ok pageID (Suc i) (nxt, fi)"
  shows "next_ok pageID i
    ((case fi (pageID ! i) of Some j \<Rightarrow> nxt[i := j] | None \<Rightarrow> nxt),
     fi(pageID ! i \<mapsto> of_nat i))"
proof -
  let ?n = "length pageID" and ?x = "pageID ! i"
  let ?nxt = "case fi ?x of Some j \<Rightarrow> nxt[i := j] | None \<Rightarrow> nxt"
  have len: "length nxt = ?n"
    and tab: "\<And>j. j < ?n \<Longrightarrow> nxt ! j =
        of_nat (if Suc i \<le> j then next_occ pageID (Suc j) (pageID ! j) else ?n)"
    and fi: "\<And>p. fi p = (if next_occ pageID (Suc i) p < ?n
        then Some (of_nat (next_occ pageID (Suc i) p)) else None)"
    using assms(2) by (simp_all add: next_ok_def)
  have le: "next_occ pageID (Suc i) ?x \<le> ?n"
    using next_occ_bounds [of "Suc i" pageID ?x] assms(1) by simp
  have at_i: "?nxt ! i = of_nat (next_occ pageID (Suc i) ?x)"
  proof (cases "next_occ pageID (Suc i) ?x < ?n")
    case True
    then show ?thesis using fi [of ?x] len assms(1) by simp
  next
    case False
    then have "next_occ pageID (Suc i) ?x = ?n" using le by simp
    then show ?thesis using fi [of ?x] tab [of i] assms(1) by simp
  qed
  have other: "?nxt ! j = nxt ! j" if "j \<noteq> i" for j
    using that by (cases "fi ?x") simp_all
  have "length ?nxt = ?n" using len by (cases "fi ?x") simp_all
  moreover have "?nxt ! j = of_nat (if i \<le> j then next_occ pageID (Suc j) (pageID ! j) else ?n)"
    if "j < ?n" for j
  proof (cases "j = i")
    case True
    then show ?thesis using at_i by simp
  next
    case False
    then show ?thesis using other [OF False] tab [OF that] by auto
  qed
  moreover have "(fi(?x \<mapsto> of_nat i)) p =
      (if next_occ pageID i p < ?n then Some (of_nat (next_occ pageID i p)) else None)" for p
  proof (cases "p = ?x")
    case True
    then show ?thesis using assms(1) by (simp add: next_occ_here)
  next
    case False
    then have "next_occ pageID i p = next_occ pageID (Suc i) p"
      using assms(1) by (intro next_occ_later) auto
    then show ?thesis using False fi [of p] by simp
  qed
  ultimately show ?thesis by (simp add: next_ok_def)
qed

lemma OPT_next_ok:
  "k \<le> length pageID \<Longrightarrow> next_ok pageID k st \<Longrightarrow> next_ok pageID 0 (OPT_next pageID k st)"
proof (induction k arbitrary: st)
  case 0
  then show ?case by (cases st) simp
next
  case (Suc i)
  obtain nxt fi where st: "st = (nxt, fi)" by (cases st)
  have "next_ok pageID i
      ((case fi (pageID ! i) of Some j \<Rightarrow> nxt[i := j] | None \<Rightarrow> nxt),
       fi(pageID ! i \<mapsto> of_nat i))"
    using Suc.prems st by (intro next_ok_step) simp_all
  then show ?case using Suc.IH Suc.prems(1) st by simp
qed

lemma OPT_next_table:
  assumes "i < length pageID"
  shows "fst (OPT_next pageID (length pageID)
      (replicate (length pageID) (of_nat (length pageID)), Map.empty)) ! i =
    of_nat (next_occ pageID (Suc i) (pageID ! i))"
  using OPT_next_ok [OF order_refl next_ok_init, of pageID] assms
  by (simp add: next_ok_def)

text \<open>
  One iteration of the main loop either keeps the invariant, the bound on the residents
  and the set of pages that are resident or still to come, or it evicts at the entry
  \<open>length pageID\<close>, outside the vector.
\<close>

lemma OPT_step_cases:
  assumes n: "length pageID < 2 ^ 31"
    and c: "1 \<le> sint c"
    and tab: "\<forall>j < length pageID. nxt ! j = of_nat (next_occ pageID (Suc j) (pageID ! j))"
    and i: "i < length pageID"
    and inv: "opt_inv pageID i s"
    and bound: "int (card (cache s)) \<le> sint c"
  shows "OPT_step c pageID nxt i s =
      Inl (IndexOutOfRange (int (length pageID)) (length pageID)) \<or>
    (\<exists>s'. OPT_step c pageID nxt i s = Inr s' \<and> opt_inv pageID (Suc i) s' \<and>
       int (card (cache s')) \<le> sint c \<and>
       cache s \<union> set (drop i pageID) \<subseteq> cache s' \<union> set (drop (Suc i) pageID))"
proof -
  let ?n = "length pageID" and ?x = "pageID ! i"
  let ?f = "\<lambda>p. int (next_occ pageID i p)" and ?g = "\<lambda>p. int (next_occ pageID (Suc i) p)"
  have fin: "finite (cache s)" and occ: "occSet s = ?f ` cache s"
    using inv by (simp_all add: opt_inv_def)
  have fx: "?f ?x = int i" using i by (simp add: next_occ_here)
  have fg: "?f p = ?g p" if "p \<noteq> ?x" for p
    using that i next_occ_later [of i pageID p] by auto
  have fne: "?f p \<noteq> int i" if "p \<noteq> ?x" for p
  proof
    assume "?f p = int i"
    then have e: "next_occ pageID i p = i" by simp
    then have "pageID ! next_occ pageID i p = p"
      using i by (intro next_occ_page) simp_all
    then show False using e that by simp
  qed
  have "next_occ pageID (Suc i) ?x \<le> ?n"
    using next_occ_bounds [of "Suc i" pageID ?x] i by simp
  then have "next_occ pageID (Suc i) ?x < 2 ^ 31" using n by simp
  then have gx: "sint (nxt ! i) = ?g ?x"
    using tab i by (simp add: sint_of_nat_cint)
  have drop: "set (drop i pageID) = insert ?x (set (drop (Suc i) pageID))"
    using i by (simp add: Cons_nth_drop_Suc [symmetric])
  show ?thesis
  proof (cases "?x \<in> cache s")
    case hit: True
    let ?s' = "s\<lparr>occSet := insert (sint (nxt ! i)) (occSet s - {int i})\<rparr>"
    have "?f ` cache s - {int i} = ?f ` (cache s - {?x})"
    proof (intro equalityI subsetI)
      fix v assume v: "v \<in> ?f ` cache s - {int i}"
      then obtain p where p: "p \<in> cache s" "v = ?f p" by blast
      then have "p \<noteq> ?x" using v fx by auto
      then show "v \<in> ?f ` (cache s - {?x})" using p by simp
    next
      fix v assume "v \<in> ?f ` (cache s - {?x})"
      then obtain p where p: "p \<in> cache s" "p \<noteq> ?x" "v = ?f p" by blast
      then show "v \<in> ?f ` cache s - {int i}" using fne [of p] by simp
    qed
    also have "\<dots> = ?g ` (cache s - {?x})"
      by (rule image_cong [OF refl]) (use fg in blast)
    finally have "?f ` cache s - {int i} = ?g ` (cache s - {?x})" .
    moreover have "insert (?g ?x) (?g ` (cache s - {?x})) = ?g ` cache s"
      using hit by blast
    ultimately have "insert (?g ?x) (?f ` cache s - {int i}) = ?g ` cache s"
      by simp
    then have "opt_inv pageID (Suc i) ?s'"
      using fin occ gx by (simp add: opt_inv_def)
    moreover have "OPT_step c pageID nxt i s = Inr ?s'"
      using hit by (simp add: OPT_step_def)
    moreover have "cache s \<union> set (drop i pageID) \<subseteq> cache ?s' \<union> set (drop (Suc i) pageID)"
      using hit drop by auto
    ultimately show ?thesis using bound by auto
  next
    case miss: False
    have same: "?f ` A = ?g ` A" if "A \<subseteq> cache s" for A
    proof (rule image_cong [OF refl])
      fix p assume "p \<in> A"
      then have "p \<noteq> ?x" using that miss by blast
      then show "?f p = ?g p" by (rule fg)
    qed
    show ?thesis
    proof (cases "int (card (cache s)) = sint c")
      case False
      let ?s' = "s\<lparr>cache := insert ?x (cache s), occSet := insert (sint (nxt ! i)) (occSet s),
        missCount := missCount s + 1\<rparr>"
      have "OPT_step c pageID nxt i s = Inr ?s'"
        using miss False by (simp add: OPT_step_def)
      moreover have "opt_inv pageID (Suc i) ?s'"
        using fin occ gx same [of "cache s"] by (simp add: opt_inv_def)
      moreover have "int (card (cache ?s')) \<le> sint c"
        using False bound fin miss by simp
      moreover have "cache s \<union> set (drop i pageID) \<subseteq> cache ?s' \<union> set (drop (Suc i) pageID)"
        using drop by auto
      ultimately show ?thesis by blast
    next
      case full: True
      then have ne: "cache s \<noteq> {}" using c by auto
      then have one: "occSet s \<noteq> {}" "finite (occSet s)" using occ fin by simp_all
      let ?m = "Max (occSet s)"
      have "?m \<in> occSet s" using one by (intro Max_in) simp_all
      then obtain r where r: "r \<in> cache s" "?m = ?f r" using occ by auto
      have rb: "i \<le> next_occ pageID i r" "next_occ pageID i r \<le> ?n"
        using next_occ_bounds [of i pageID r] i by simp_all
      show ?thesis
      proof (cases "next_occ pageID i r < ?n")
        case False
        then have "?m = int ?n" using rb r by simp
        then have "OPT_step c pageID nxt i s = Inl (IndexOutOfRange (int ?n) ?n)"
          using miss full one by (simp add: OPT_step_def Let_def)
        then show ?thesis by simp
      next
        case inside: True
        let ?k = "next_occ pageID i r"
        have page: "pageID ! ?k = r" using i inside by (intro next_occ_page) simp_all
        have rx: "r \<noteq> ?x" using r(1) miss by auto
        then have ki: "?k \<noteq> i" using page by auto
        then have later: "Suc i \<le> ?k" using rb by simp
        let ?s' = "s\<lparr>occSet := insert (sint (nxt ! i)) (occSet s - {?m}),
          cache := insert ?x (cache s - {r}), missCount := missCount s + 1\<rparr>"
        have "OPT_step c pageID nxt i s = Inr ?s'"
          using miss full one r(2) inside page by (simp add: OPT_step_def Let_def)
        moreover have "opt_inv pageID (Suc i) ?s'"
        proof -
          have only: "p = r" if "p \<in> cache s" "?f p = ?f r" for p
          proof -
            have e: "next_occ pageID i p = ?k" using that(2) by simp
            then have "pageID ! next_occ pageID i p = p"
              using i inside by (intro next_occ_page) simp_all
            then show ?thesis using e page by simp
          qed
          have "?f ` cache s - {?f r} = ?f ` (cache s - {r})"
          proof (intro equalityI subsetI)
            fix v assume v: "v \<in> ?f ` cache s - {?f r}"
            then obtain p where p: "p \<in> cache s" "v = ?f p" by blast
            then have "p \<noteq> r" using v by blast
            then show "v \<in> ?f ` (cache s - {r})" using p by simp
          next
            fix v assume "v \<in> ?f ` (cache s - {r})"
            then obtain p where p: "p \<in> cache s" "p \<noteq> r" "v = ?f p" by blast
            then have "?f p \<noteq> ?f r" using only [of p] by blast
            then show "v \<in> ?f ` cache s - {?f r}" using p by simp
          qed
          also have "\<dots> = ?g ` (cache s - {r})" by (rule same) blast
          finally have "occSet s - {?m} = ?g ` (cache s - {r})"
            using occ r(2) by simp
          then have "insert (?g ?x) (occSet s - {?m}) = ?g ` insert ?x (cache s - {r})"
            by simp
          then show ?thesis using fin gx by (simp add: opt_inv_def)
        qed
        moreover have "int (card (cache ?s')) \<le> sint c"
          using card_swap [OF fin r(1) miss] bound by simp
        moreover have "cache s \<union> set (drop i pageID) \<subseteq> cache ?s' \<union> set (drop (Suc i) pageID)"
        proof -
          have "drop (Suc i) pageID ! (?k - Suc i) = r" "?k - Suc i < length (drop (Suc i) pageID)"
            using later inside page by simp_all
          then have "r \<in> set (drop (Suc i) pageID)"
            by (metis nth_mem)
          then show ?thesis using drop by auto
        qed
        ultimately show ?thesis by blast
      qed
    qed
  qed
qed

text \<open>
  When the residents and the pages still to come are more than the frames, the rest of
  the loop reaches such an eviction: the page evicted last would come again, miss, and
  find the set full.
\<close>

lemma OPT_loop_overflow:
  assumes n: "length pageID < 2 ^ 31"
    and c: "1 \<le> sint c"
    and tab: "\<forall>j < length pageID. nxt ! j = of_nat (next_occ pageID (Suc j) (pageID ! j))"
    and "i + k = length pageID"
    and "opt_inv pageID i s"
    and "int (card (cache s)) \<le> sint c"
    and "sint c < int (card (cache s \<union> set (drop i pageID)))"
  shows "OPT_loop c pageID nxt i k s =
    Inl (IndexOutOfRange (int (length pageID)) (length pageID))"
  using assms(4-)
proof (induction k arbitrary: i s)
  case 0
  then show ?case by simp
next
  case (Suc k)
  have i: "i < length pageID" using Suc.prems(1) by simp
  from OPT_step_cases [OF n c tab i Suc.prems(2,3)]
  show ?case
  proof (elim disjE exE conjE)
    assume "OPT_step c pageID nxt i s =
      Inl (IndexOutOfRange (int (length pageID)) (length pageID))"
    then show ?thesis by simp
  next
    fix s'
    assume s': "OPT_step c pageID nxt i s = Inr s'" "opt_inv pageID (Suc i) s'"
      "int (card (cache s')) \<le> sint c"
      "cache s \<union> set (drop i pageID) \<subseteq> cache s' \<union> set (drop (Suc i) pageID)"
    have "finite (cache s' \<union> set (drop (Suc i) pageID))"
      using s'(2) by (simp add: opt_inv_def)
    then have "card (cache s \<union> set (drop i pageID)) \<le>
        card (cache s' \<union> set (drop (Suc i) pageID))"
      using s'(4) by (intro card_mono)
    then have "sint c < int (card (cache s' \<union> set (drop (Suc i) pageID)))"
      using Suc.prems(4) by simp
    then have "OPT_loop c pageID nxt (Suc i) k s' =
        Inl (IndexOutOfRange (int (length pageID)) (length pageID))"
      using Suc.prems(1) s'(2,3) by (intro Suc.IH) simp_all
    then show ?thesis using s'(1) by simp
  qed
qed

text \<open>
  So, with at least one frame and a trace of fewer than \<open>2 ^ 31\<close> references,
  \<^verbatim>\<open>OPT::processRAM\<close> returns a result exactly when the frames hold all the distinct
  pages of the trace, where nothing is evicted; on every other trace it reads
  \<^verbatim>\<open>pageID[total]\<close>.
\<close>

lemma OPT_processRAM_cases:
  assumes "length pageID < 2 ^ 31" "1 \<le> sint noOfRAMPages"
  shows "OPT_processRAM noOfPages noOfRAMPages pageID =
    (if int (card (set pageID)) \<le> sint noOfRAMPages
     then Inr [of_nat (card (set pageID)), of_nat (length pageID)]
     else Inl (IndexOutOfRange (int (length pageID)) (length pageID)))"
proof (cases "int (card (set pageID)) \<le> sint noOfRAMPages")
  case True
  let ?nxt = "fst (OPT_next pageID (length pageID)
                (replicate (length pageID) (of_nat (length pageID)), Map.empty))"
  have "\<exists>s'. OPT_loop noOfRAMPages pageID ?nxt 0 (length pageID) opt_init = Inr s' \<and>
      cache s' = cache opt_init \<union> set (take (length pageID) (drop 0 pageID)) \<and>
      missCount s' = of_nat (card (cache s'))"
    using True by (intro OPT_loop_roomy [of "set pageID"]) (simp_all add: opt_init_def)
  then show ?thesis using True
    by (auto simp: OPT_processRAM_short [OF assms(1)] opt_init_def)
next
  case False
  let ?nxt = "fst (OPT_next pageID (length pageID)
                (replicate (length pageID) (of_nat (length pageID)), Map.empty))"
  have tab: "\<forall>j < length pageID. ?nxt ! j = of_nat (next_occ pageID (Suc j) (pageID ! j))"
    by (simp add: OPT_next_table)
  have "OPT_loop noOfRAMPages pageID ?nxt 0 (length pageID) opt_init =
      Inl (IndexOutOfRange (int (length pageID)) (length pageID))"
    using assms tab False
    by (intro OPT_loop_overflow) (simp_all add: opt_inv_def opt_init_def)
  then show ?thesis using False by (simp add: OPT_processRAM_short [OF assms(1)])
qed

section \<open>OPT's miss count is a lower bound\<close>
























text \<open>
  The hypothesis on the values read is needed. On the trace 1, 2, 3, 2 with two frames
  OPT reads \<^verbatim>\<open>pageID[4]\<close> at the third reference. When the read yields the resident 2,
  OPT erases it and misses it at the fourth reference: 4 misses, where FIFO and LRU have
  3. When it yields 0 nothing is erased and OPT has 3 misses.
\<close>

lemma OPT_stray_resident:
  "OPT_processRAM_read (\<lambda>_. 2) 3 2 [1, 2, 3, 2] = Inr [4, 4] \<and>
   OPT_processRAM_read (\<lambda>_. 0) 3 2 [1, 2, 3, 2] = Inr [3, 4] \<and>
   FIFO_processRAM 3 2 [1, 2, 3, 2] = Inr [3, 4] \<and>
   LRU_processRAM 3 2 [1, 2, 3, 2] = Inr [3, 4] \<and>
   MRU_processRAM 3 2 [1, 2, 3, 2] = Inr [4, 4]"
  by code_simp



section \<open>The fixed trace with three frames\<close>




text \<open>When the value read is 5, page 5 is erased and its last reference is an eighth miss.\<close>

lemma fixture_stray_5:
  "OPT_processRAM_read (\<lambda>i. 5) 5 3 [1, 2, 3, 4, 1, 2, 5, 1, 2, 3, 4, 5] = Inr [8, 12]"
  by code_simp



section \<open>Capacity zero\<close>

text \<open>
  LRU and MRU with no frame: the first miss finds the empty set at capacity, erases
  nothing and inserts; from then on the size is not 0, so nothing is ever evicted and
  every identifier stays resident.
\<close>

lemma LRU_step_zero:
  assumes "finite (cache s)" "missCount s = of_nat (card (cache s))"
  shows "\<exists>s'. LRU_step 0 i x s = Inr s' \<and> cache s' = insert x (cache s) \<and>
    finite (cache s') \<and> missCount s' = of_nat (card (cache s'))"
proof (cases "x \<in> cache s")
  case True
  then show ?thesis using assms by (simp add: LRU_step_def insert_absorb)
next
  case miss: False
  show ?thesis
  proof (cases "cache s = {}")
    case True
    then show ?thesis using assms by (simp add: LRU_step_def Let_def)
  next
    case False
    then have "card (cache s) \<noteq> 0" using assms(1) by simp
    then show ?thesis using miss assms by (simp add: LRU_step_def Let_def)
  qed
qed

lemma MRU_step_zero:
  assumes "finite (cache s)" "missCount s = of_nat (card (cache s))"
  shows "\<exists>s'. MRU_step 0 i x s = Inr s' \<and> cache s' = insert x (cache s) \<and>
    finite (cache s') \<and> missCount s' = of_nat (card (cache s'))"
proof (cases "x \<in> cache s")
  case True
  then show ?thesis using assms by (simp add: MRU_step_def insert_absorb)
next
  case miss: False
  show ?thesis
  proof (cases "cache s = {}")
    case True
    then show ?thesis using assms by (simp add: MRU_step_def Let_def)
  next
    case False
    then have "card (cache s) \<noteq> 0" using assms(1) by simp
    then show ?thesis using miss assms by (simp add: MRU_step_def Let_def)
  qed
qed

lemma LRU_loop_zero:
  assumes "finite (cache s)" "missCount s = of_nat (card (cache s))"
  shows "\<exists>s'. LRU_loop 0 i xs s = Inr s' \<and> cache s' = cache s \<union> set xs \<and>
    missCount s' = of_nat (card (cache s'))"
  using assms
proof (induction xs arbitrary: s i)
  case Nil
  then show ?case by simp
next
  case (Cons x xs)
  from LRU_step_zero [OF Cons.prems, of "of_nat i" x] obtain s1
    where s1: "LRU_step 0 (of_nat i) x s = Inr s1" "cache s1 = insert x (cache s)"
      "finite (cache s1)" "missCount s1 = of_nat (card (cache s1))" by blast
  from Cons.IH [OF s1(3,4), of "Suc i"] s1(1,2) show ?case by auto
qed

lemma MRU_loop_zero:
  assumes "finite (cache s)" "missCount s = of_nat (card (cache s))"
  shows "\<exists>s'. MRU_loop 0 i xs s = Inr s' \<and> cache s' = cache s \<union> set xs \<and>
    missCount s' = of_nat (card (cache s'))"
  using assms
proof (induction xs arbitrary: s i)
  case Nil
  then show ?case by simp
next
  case (Cons x xs)
  from MRU_step_zero [OF Cons.prems, of "of_nat i" x] obtain s1
    where s1: "MRU_step 0 (of_nat i) x s = Inr s1" "cache s1 = insert x (cache s)"
      "finite (cache s1)" "missCount s1 = of_nat (card (cache s1))" by blast
  from Cons.IH [OF s1(3,4), of "Suc i"] s1(1,2) show ?case by auto
qed

text \<open>
  The sweep gives the policies at least one frame: for a page size from 1 to the RAM
  size, \<open>createAnalyze\<close> computes \<open>noOfRAMPages \<ge> 1\<close>.
\<close>

lemma createAnalyze_frames:
  assumes "1 \<le> sint pageSize" "sint pageSize \<le> sint RAMSize"
  shows "1 \<le> sint (an_noOfRAMPages (createAnalyze noOfProcess RAMSize processSize pageSize))"
proof -
  let ?q = "sint RAMSize div sint pageSize"
  have pos: "0 < sint pageSize" "0 \<le> sint RAMSize" using assms by simp_all
  have sd: "sint RAMSize sdiv sint pageSize = ?q"
    using pos by (simp add: signed_divide_int_def sgn_if)
  have "0 < ?q" using assms(2) pos(1) by (simp add: pos_imp_zdiv_pos_iff)
  then have lo: "1 \<le> ?q" by simp
  have "0 < sint RAMSize" using assms by simp
  then have "?q \<le> sint RAMSize" by (rule int_div_le_self)
  moreover have "sint RAMSize < 2 ^ 31" using sint_lt [of RAMSize] by simp
  ultimately have "signed_take_bit 31 ?q = ?q"
    using lo by (intro signed_take_bit_int_eq_self) simp_all
  moreover have "pageSize \<noteq> 0" using assms(1) by auto
  ultimately show ?thesis using lo
    by (simp add: createAnalyze_def c_div_def sd sint_sbintrunc')
qed

text \<open>
  C5 as the spec states it: with \<open>frameCapacity = 0\<close> every policy returns
  \<open>missCount = total\<close>. On the trace 7, 7 that would be 2 of 2; LRU and MRU return 1
  of 2, the second reference being a hit.
\<close>

theorem zero_capacity_counterexample:
  "LRU_processRAM 1 0 [7, 7] = Inr [1, 2] \<and> MRU_processRAM 1 0 [7, 7] = Inr [1, 2] \<and>
   LRU_processRAM 1 0 [7, 7] \<noteq> Inr [2, 2] \<and> MRU_processRAM 1 0 [7, 7] \<noteq> Inr [2, 2]"
  by code_simp

text \<open>
  C5, amended. With \<open>frameCapacity = 0\<close>, every policy returns \<open>missCount = total = 0\<close> on
  the empty trace. On every trace LRU and MRU return the number of distinct identifiers
  as \<open>missCount\<close>, which is \<open>total\<close> only when no identifier occurs twice. OPT returns no
  result on a trace that is not empty: its first reference takes the last element of the
  empty \<open>occSet\<close>. (FIFO's first reference of such a trace takes the front of an empty
  queue and pops it; what it returns after that is left open.)
\<close>

theorem zero_capacity:
  assumes "length pageID < 2 ^ 31"
  shows "FIFO_processRAM noOfPages 0 [] = Inr [0, 0] \<and>
    LRU_processRAM noOfPages 0 pageID =
      Inr [of_nat (card (set pageID)), of_nat (length pageID)] \<and>
    MRU_processRAM noOfPages 0 pageID =
      Inr [of_nat (card (set pageID)), of_nat (length pageID)] \<and>
    OPT_processRAM noOfPages 0 pageID = (if pageID = [] then Inr [0, 0] else Inl EmptySetLast)"
proof -
  have "FIFO_processRAM noOfPages 0 [] = Inr [0, 0]"
    by (simp add: FIFO_processRAM_def fifo_init_def)
  moreover have "LRU_processRAM noOfPages 0 pageID =
      Inr [of_nat (card (set pageID)), of_nat (length pageID)]"
    using LRU_loop_zero [of lru_init 0 pageID]
    by (auto simp: LRU_processRAM_short [OF assms] lru_init_def)
  moreover have "MRU_processRAM noOfPages 0 pageID =
      Inr [of_nat (card (set pageID)), of_nat (length pageID)]"
    using MRU_loop_zero [of lru_init 0 pageID]
    by (auto simp: MRU_processRAM_short [OF assms] lru_init_def)
  moreover have "OPT_processRAM noOfPages 0 pageID =
      (if pageID = [] then Inr [0, 0] else Inl EmptySetLast)"
    unfolding OPT_processRAM_short [OF assms]
    by (cases pageID) (simp_all add: OPT_step_def opt_init_def)
  ultimately show ?thesis by simp
qed

theorem zero_capacity_witness:
  "length [7, 7 :: cint] < 2 ^ 31 \<and>
   FIFO_processRAM 1 0 [] = Inr [0, 0] \<and>
   LRU_processRAM 1 0 [7, 7] = Inr [1, 2] \<and>
   MRU_processRAM 1 0 [7, 7] = Inr [1, 2] \<and>
   OPT_processRAM 1 0 [7, 7] = Inl EmptySetLast"
  using zero_capacity [of "[7, 7]" 1] by simp

section \<open>The reference trace generator\<close>

lemma sint_c_rem:
  assumes "0 \<le> sint r" "1 \<le> sint p"
  shows "sint (c_rem r p) = sint r mod sint p"
proof -
  have "sint r smod sint p = sint r mod sint p"
    using assms by (simp add: smod_int_alt_def sgn_if)
  moreover have "0 \<le> sint r mod sint p" "sint r mod sint p < sint p"
    using assms by simp_all
  moreover have "sint p < 2 ^ 31" using sint_lt [of p] by simp
  ultimately show ?thesis
    by (simp add: c_rem_def sint_sbintrunc' signed_take_bit_int_eq_self)
qed

lemma sint_pid:
  assumes "0 \<le> sint r" "1 \<le> sint p"
  shows "1 \<le> sint (c_rem r p + 1) \<and> sint (c_rem r p + 1) \<le> sint p"
proof -
  have m: "0 \<le> sint r mod sint p" "sint r mod sint p < sint p"
    using assms by simp_all
  have "sint p < 2 ^ 31" using sint_lt [of p] by simp
  then have "- (2 ^ 31) \<le> sint r mod sint p + 1" "sint r mod sint p + 1 < 2 ^ 31"
    using m by simp_all
  then have "signed_take_bit 31 (sint r mod sint p + 1) = sint r mod sint p + 1"
    by (rule signed_take_bit_int_eq_self)
  then have "sint (c_rem r p + 1) = sint r mod sint p + 1"
    using assms by (simp add: sint_word_add sint_c_rem)
  then show ?thesis using m by simp
qed

lemma length_createProcess_loop: "length (createProcess_loop rnd p k n) = n"
  by (induction n arbitrary: k) simp_all

lemma set_createProcess_loop:
  "x \<in> set (createProcess_loop rnd p k n) \<Longrightarrow> \<exists>j. x = c_rem (rnd j) p + 1"
  by (induction n arbitrary: k) auto

text \<open>Whatever its arguments, the generator builds fewer than \<open>2 ^ 31\<close> references.\<close>

lemma createProcess_length:
  "length (proc_pageID (fst (createProcess rnd k noOfPages noOfRAMPages))) < 2 ^ 31"
proof -
  have "sint (100 * noOfPages) < 2 ^ 31" using sint_lt [of "100 * noOfPages"] by simp
  then have "nat (sint (100 * noOfPages)) < 2 ^ 31" by simp
  then show ?thesis by (simp add: createProcess_def Let_def length_createProcess_loop)
qed

lemma sint_noOfBlocks:
  assumes "1 \<le> sint p" "sint p \<le> 21474836"
  shows "sint (100 * p :: cint) = 100 * sint p"
  using assms by (simp add: sint_word_mult signed_take_bit_int_eq_self)

text \<open>
  C9 as the spec states it: for every \<open>pagesPerProcess \<ge> 1\<close> the trace has length
  \<open>100 \<times> pagesPerProcess\<close>. \<^verbatim>\<open>100 * noOfPages\<close> is an \<^verbatim>\<open>int\<close> product: at
  \<open>noOfPages = 21474837\<close> the exact product 2147483700 is above \<open>INT_MAX\<close>, the 32-bit
  result is negative, the loop does not run and the trace is empty.
\<close>

theorem createProcess_trace_counterexample:
  "proc_pageID (fst (createProcess (\<lambda>_. 0) 0 21474837 1)) = [] \<and>
   length (proc_pageID (fst (createProcess (\<lambda>_. 0) 0 21474837 1))) \<noteq> 100 * 21474837"
  by (simp add: createProcess_def)

text \<open>
  C9, amended. For every \<open>pagesPerProcess\<close> from 1 to 21474836 (the values whose hundredfold
  is an \<^verbatim>\<open>int\<close>), and a \<^verbatim>\<open>rand()\<close> that returns no negative number, the generated
  trace has length exactly \<open>100 \<times> pagesPerProcess\<close> and every element of it lies in
  \<open>[1, pagesPerProcess]\<close>.
\<close>

theorem createProcess_trace:
  assumes "\<forall>j. 0 \<le> sint (rnd j)"
    and "1 \<le> sint noOfPages" and "sint noOfPages \<le> 21474836"
  shows "length (proc_pageID (fst (createProcess rnd k noOfPages noOfRAMPages))) =
      100 * nat (sint noOfPages) \<and>
    (\<forall>x \<in> set (proc_pageID (fst (createProcess rnd k noOfPages noOfRAMPages))).
       1 \<le> sint x \<and> sint x \<le> sint noOfPages)"
proof -
  have n: "nat (sint (100 * noOfPages)) = 100 * nat (sint noOfPages)"
    using assms(2,3) by (simp add: sint_noOfBlocks)
  have "1 \<le> sint x \<and> sint x \<le> sint noOfPages"
    if "x \<in> set (createProcess_loop rnd noOfPages k m)" for x m
  proof -
    from that obtain j where "x = c_rem (rnd j) noOfPages + 1"
      using set_createProcess_loop by blast
    then show ?thesis using sint_pid [of "rnd j" noOfPages] assms(1,2) by simp
  qed
  then show ?thesis
    by (simp add: createProcess_def Let_def length_createProcess_loop n)
qed

theorem createProcess_trace_witness:
  "0 \<le> sint (7 :: cint) \<and> 1 \<le> sint (1 :: cint) \<and> sint (1 :: cint) \<le> 21474836 \<and>
   length (proc_pageID (fst (createProcess (\<lambda>j. 7) 0 1 1))) = 100 \<and>
   sint (hd (proc_pageID (fst (createProcess (\<lambda>j. 7) 0 1 1)))) = 1"
proof -
  let ?trace = "proc_pageID (fst (createProcess (\<lambda>j. 7) 0 1 1))"
  have h1: "\<forall>j. 0 \<le> sint ((\<lambda>j. 7 :: cint) j)" by simp
  have h2: "1 \<le> sint (1 :: cint)" by simp
  have h3: "sint (1 :: cint) \<le> 21474836" by simp
  have len: "length ?trace = 100 * nat (sint (1 :: cint))"
    and els: "\<forall>x \<in> set ?trace. 1 \<le> sint x \<and> sint x \<le> sint (1 :: cint)"
    using createProcess_trace [OF h1 h2 h3, of 0 1] by blast+
  from len have "?trace \<noteq> []" by auto
  then have "hd ?trace \<in> set ?trace" by (rule hd_in_set)
  with els have "sint (hd ?trace) = 1" by fastforce
  with len show ?thesis by simp
qed

section \<open>The row of page size 0\<close>

text \<open>The process of the page-size-0 analysis: no call of rand, an empty trace.\<close>

lemma createProcess_sentinel:
  "createProcess rnd k (- 1) (- 1) =
     (\<lparr>proc_noOfRAMPages = - 1, proc_noOfPages = - 1, proc_pageID = []\<rparr>, k)"
  by (simp add: createProcess_def)

text \<open>With \<open>noOfPages = -1\<close> no entry of the table is applied: whatever the functions are.\<close>

lemma runProcess_loop_sentinel:
  "proc_noOfPages p = - 1 \<Longrightarrow>
   runProcess_loop p ms out = Inr (fold (\<lambda>(name, (f, algoID)) out. out[algoID := [- 1, - 1]]) ms out)"
  by (induction ms arbitrary: out) auto

lemma runProcess_sentinel:
  "proc_noOfPages p = - 1 \<Longrightarrow> runProcess p = Inr (replicate 5 [- 1, - 1])"
  by (simp add: runProcess_def runProcess_loop_sentinel mapping_def eval_nat_numeral)

lemma mergeOutput_sentinel:
  "mergeOutput (replicate n [v, v]) (replicate n [- 1, - 1]) = Inr (replicate n [v - 1, v - 1])"
  by (induction n) (simp_all add: TOTAL_def MISS_def)

lemma mergeOutput_Nil: "mergeOutput [] row = Inr row"
  by (cases row) simp_all

lemma runProcesses_loop_sentinel:
  assumes "an_noOfPages a = - 1" "an_noOfRAMPages a = - 1" "curOutput a = replicate 5 [v, v]"
  shows "runProcesses_loop rnd k a n =
    Inr (a\<lparr>curOutput := replicate 5 [v - of_nat n, v - of_nat n]\<rparr>, k)"
  using assms
proof (induction n arbitrary: a v)
  case 0
  then show ?case by simp
next
  case (Suc n)
  have "runProcesses_loop rnd k (a\<lparr>curOutput := replicate 5 [v - 1, v - 1]\<rparr>) n =
      Inr (a\<lparr>curOutput := replicate 5 [v - 1, v - 1]\<rparr>
            \<lparr>curOutput := replicate 5 [v - 1 - of_nat n, v - 1 - of_nat n]\<rparr>, k)"
    using Suc.prems by (intro Suc.IH) simp_all
  then show ?case using Suc.prems
    by (simp add: createProcess_sentinel runProcess_sentinel mergeOutput_sentinel
        diff_diff_eq add.commute)
qed

lemma runProcesses_loop_sentinel_first:
  assumes "an_noOfPages a = - 1" "an_noOfRAMPages a = - 1" "curOutput a = []"
  shows "runProcesses_loop rnd k a n =
    Inr (a\<lparr>curOutput := (if n = 0 then [] else replicate 5 [- of_nat n, - of_nat n])\<rparr>, k)"
proof (cases n)
  case 0
  then show ?thesis using assms by simp
next
  case (Suc m)
  have "runProcesses_loop rnd k (a\<lparr>curOutput := replicate 5 [- 1, - 1]\<rparr>) m =
      Inr (a\<lparr>curOutput := replicate 5 [- 1, - 1]\<rparr>
            \<lparr>curOutput := replicate 5 [- 1 - of_nat m, - 1 - of_nat m]\<rparr>, k)"
    using assms by (intro runProcesses_loop_sentinel) simp_all
  then show ?thesis using Suc assms
    by (simp add: createProcess_sentinel runProcess_sentinel mergeOutput_Nil)
qed

lemma of_nat_nat_sint: "0 < sint (x :: cint) \<Longrightarrow> of_nat (nat (sint x)) = x"
  by simp

text \<open>
  C6 as the spec states it: the sentinel results are left out of the aggregation and the
  row of page size 0 holds \<open>(-1, -1)\<close> in every cell. With two processes the row holds
  \<open>(-2, -2)\<close>: \<^verbatim>\<open>mergeOutput\<close> adds the second process's \<open>-1\<close>s to the first's.
\<close>

theorem pageSize0_row_counterexample:
  "runProcesses (\<lambda>_. 0) 0 (createAnalyze 2 1 1 0) [] = Inr ([replicate 5 [- 2, - 2]], 0) \<and>
   replicate 5 [- 2, - 2 :: cint] \<noteq> replicate 5 [- 1, - 1]"
  by code_simp

text \<open>
  C6, amended. For page size 0 the analysis has \<open>noOfPages = noOfRAMPages = -1\<close>; for any
  process count, RAM size and process size, no policy is applied and \<^verbatim>\<open>rand()\<close> is not
  called (the count \<open>k\<close> of calls is returned unchanged), every process's row is
  \<open>(-1, -1)\<close> in each of its five cells, and these rows are summed like any others: the
  row pushed for page size 0 holds \<open>(-processCount, -processCount)\<close> in every cell when
  \<open>processCount \<ge> 1\<close>, which is \<open>(-1, -1)\<close> for one process, and is empty when there is
  no process.
\<close>

theorem pageSize0_row:
  "runProcesses rnd k (createAnalyze noOfProcess RAMSize processSize 0) mainOutput =
     Inr (mainOutput @
          [if 0 < sint noOfProcess then replicate 5 [- noOfProcess, - noOfProcess] else []], k)"
proof -
  let ?a = "createAnalyze noOfProcess RAMSize processSize 0"
  have a: "an_noOfPages ?a = - 1" "an_noOfRAMPages ?a = - 1" "curOutput ?a = []"
    "an_noOfProcess ?a = noOfProcess"
    by (simp_all add: createAnalyze_def)
  show ?thesis
  proof (cases "0 < sint noOfProcess")
    case True
    then have "nat (sint noOfProcess) \<noteq> 0" by simp
    moreover have "of_nat (nat (sint noOfProcess)) = noOfProcess"
      using True by (rule of_nat_nat_sint)
    ultimately show ?thesis using True a
      by (simp add: runProcesses_def runProcesses_loop_sentinel_first [OF a(1-3)])
  next
    case False
    then have "nat (sint noOfProcess) = 0" by simp
    then show ?thesis using False a
      by (simp add: runProcesses_def runProcesses_loop_sentinel_first [OF a(1-3)])
  qed
qed

theorem pageSize0_row_witness:
  "runProcesses (\<lambda>j. of_nat j) 4 (createAnalyze 3 8 16 0) [] =
     Inr ([[[- 3, - 3], [- 3, - 3], [- 3, - 3], [- 3, - 3], [- 3, - 3]]], 4)"
  using pageSize0_row [of "\<lambda>j. of_nat j" 4 3 8 16 "[]"] by (simp add: eval_nat_numeral)

section \<open>The aggregation of process rows\<close>

text \<open>A cell of two elements is its miss count followed by its total.\<close>

lemma cell_eq: "length c = 2 \<Longrightarrow> c = [c ! MISS, c ! TOTAL]"
  by (cases c; cases "tl c") (auto simp: MISS_def TOTAL_def)

lemma mergeOutput_cells:
  assumes "length acc = length row"
    and "\<forall>c \<in> set acc. length c = 2" and "\<forall>c \<in> set row. length c = 2"
  shows "mergeOutput acc row =
    Inr (map2 (\<lambda>a c. [a ! MISS + c ! MISS, a ! TOTAL + c ! TOTAL]) acc row)"
  using assms
proof (induction acc row rule: list_induct2)
  case Nil
  then show ?case by simp
next
  case (Cons a acc c row)
  have "length a = 2" "length c = 2" using Cons.prems by simp_all
  then have "a[TOTAL := a ! TOTAL + c ! TOTAL, MISS := a ! MISS + c ! MISS] =
      [a ! MISS + c ! MISS, a ! TOTAL + c ! TOTAL]"
    by (cases a; cases "tl a") (auto simp: MISS_def TOTAL_def)
  then show ?case using Cons \<open>length a = 2\<close> \<open>length c = 2\<close> by (simp add: TOTAL_def)
qed

lemma mergeOutputs_cells:
  assumes "length acc = w" and "\<forall>c \<in> set acc. length c = 2"
    and "\<forall>row \<in> set rows. length row = w \<and> (\<forall>c \<in> set row. length c = 2)"
  shows "mergeOutputs acc rows =
    Inr (map (\<lambda>i. [acc ! i ! MISS + (\<Sum>row\<leftarrow>rows. row ! i ! MISS),
                   acc ! i ! TOTAL + (\<Sum>row\<leftarrow>rows. row ! i ! TOTAL)]) [0..<w])"
  using assms
proof (induction rows arbitrary: acc)
  case Nil
  have "acc = map (\<lambda>i. [acc ! i ! MISS, acc ! i ! TOTAL]) [0..<w]"
  proof (rule nth_equalityI)
    show "length acc = length (map (\<lambda>i. [acc ! i ! MISS, acc ! i ! TOTAL]) [0..<w])"
      using Nil by simp
    fix i assume "i < length acc"
    then show "acc ! i = map (\<lambda>i. [acc ! i ! MISS, acc ! i ! TOTAL]) [0..<w] ! i"
      using Nil cell_eq [of "acc ! i"] by simp
  qed
  then show ?case by simp
next
  case (Cons row rows)
  let ?m = "map2 (\<lambda>a c. [a ! MISS + c ! MISS, a ! TOTAL + c ! TOTAL]) acc row"
  have row: "length row = w" "\<forall>c \<in> set row. length c = 2" using Cons.prems by simp_all
  have m: "mergeOutput acc row = Inr ?m"
    using Cons.prems row by (intro mergeOutput_cells) simp_all
  have len: "length ?m = w" using Cons.prems row by simp
  have cells: "\<forall>c \<in> set ?m. length c = 2" by (auto simp: set_zip)
  have "mergeOutputs ?m rows =
      Inr (map (\<lambda>i. [?m ! i ! MISS + (\<Sum>row\<leftarrow>rows. row ! i ! MISS),
                     ?m ! i ! TOTAL + (\<Sum>row\<leftarrow>rows. row ! i ! TOTAL)]) [0..<w])"
    using len cells Cons.prems(3) by (intro Cons.IH) simp_all
  moreover have "map (\<lambda>i. [?m ! i ! MISS + (\<Sum>row\<leftarrow>rows. row ! i ! MISS),
                     ?m ! i ! TOTAL + (\<Sum>row\<leftarrow>rows. row ! i ! TOTAL)]) [0..<w] =
      map (\<lambda>i. [acc ! i ! MISS + (\<Sum>r\<leftarrow>row # rows. r ! i ! MISS),
                acc ! i ! TOTAL + (\<Sum>r\<leftarrow>row # rows. r ! i ! TOTAL)]) [0..<w]"
  proof (rule map_cong [OF refl])
    fix i assume "i \<in> set [0..<w]"
    then have "i < w" by simp
    then have "?m ! i = [acc ! i ! MISS + row ! i ! MISS, acc ! i ! TOTAL + row ! i ! TOTAL]"
      using Cons.prems(1) row(1) by simp
    then show "[?m ! i ! MISS + (\<Sum>row\<leftarrow>rows. row ! i ! MISS),
                ?m ! i ! TOTAL + (\<Sum>row\<leftarrow>rows. row ! i ! TOTAL)] =
      [acc ! i ! MISS + (\<Sum>r\<leftarrow>row # rows. r ! i ! MISS),
       acc ! i ! TOTAL + (\<Sum>r\<leftarrow>row # rows. r ! i ! TOTAL)]"
      by (simp add: MISS_def TOTAL_def add.assoc)
  qed
  ultimately show ?case using m by simp
qed

lemma mergeOutputs_sums:
  assumes "\<forall>row \<in> set rows. length row = w \<and> (\<forall>c \<in> set row. length c = 2)"
  shows "mergeOutputs [] rows =
    Inr (if rows = [] then []
         else map (\<lambda>i. [\<Sum>row\<leftarrow>rows. row ! i ! MISS, \<Sum>row\<leftarrow>rows. row ! i ! TOTAL]) [0..<w])"
proof (cases rows)
  case Nil
  then show ?thesis by simp
next
  case (Cons row rest)
  have "mergeOutputs row rest =
      Inr (map (\<lambda>i. [row ! i ! MISS + (\<Sum>r\<leftarrow>rest. r ! i ! MISS),
                     row ! i ! TOTAL + (\<Sum>r\<leftarrow>rest. r ! i ! TOTAL)]) [0..<w])"
    using assms Cons by (intro mergeOutputs_cells) simp_all
  then show ?thesis using Cons by (simp add: mergeOutput_Nil)
qed

lemma sum_list_perm:
  fixes f :: "'a \<Rightarrow> cint"
  shows "mset xs = mset ys \<Longrightarrow> (\<Sum>x\<leftarrow>xs. f x) = (\<Sum>y\<leftarrow>ys. f y)"
proof -
  assume "mset xs = mset ys"
  then have "sum_mset (image_mset f (mset xs)) = sum_mset (image_mset f (mset ys))" by simp
  then show ?thesis by (simp add: sum_mset_sum_list flip: mset_map)
qed

text \<open>
  C7. Merging process rows of one shape (each row \<open>w\<close> cells, each cell a miss count and
  a total) into the empty accumulated row, in any order, gives the same row: cell \<open>i\<close>
  of it holds the sum of the miss counts and the sum of the totals of the cells \<open>i\<close> of
  all the rows. The sums are those of \<^verbatim>\<open>int\<close>, which wrap around at 32 bits.
\<close>

theorem mergeOutputs_order:
  assumes "\<forall>row \<in> set rows. length row = w \<and> (\<forall>c \<in> set row. length c = 2)"
    and "mset rows' = mset rows"
  shows "mergeOutputs [] rows' = mergeOutputs [] rows \<and>
    mergeOutputs [] rows =
      Inr (if rows = [] then []
           else map (\<lambda>i. [\<Sum>row\<leftarrow>rows. row ! i ! MISS, \<Sum>row\<leftarrow>rows. row ! i ! TOTAL]) [0..<w])"
proof -
  have "set rows' = set rows" using assms(2) by (rule mset_eq_setD)
  then have shape': "\<forall>row \<in> set rows'. length row = w \<and> (\<forall>c \<in> set row. length c = 2)"
    using assms(1) by simp
  have nil: "rows' = [] \<longleftrightarrow> rows = []" using assms(2) by (metis mset_zero_iff)
  have "(\<Sum>row\<leftarrow>rows'. row ! i ! k) = (\<Sum>row\<leftarrow>rows. row ! i ! k)" for i k
    using assms(2) by (rule sum_list_perm)
  then show ?thesis
    by (simp add: mergeOutputs_sums [OF assms(1)] mergeOutputs_sums [OF shape'] nil)
qed

theorem mergeOutputs_order_witness:
  "mergeOutputs [] [[[1, 100], [2, 100]], [[3, 200], [4, 200]], [[5, 300], [6, 300]]] = Inr [[9, 600], [12, 600]] \<and>
   mergeOutputs [] [[[5, 300], [6, 300]], [[1, 100], [2, 100]], [[3, 200], [4, 200]]] = Inr [[9, 600], [12, 600]]"
  using mergeOutputs_order [of "[[[1, 100], [2, 100]], [[3, 200], [4, 200]], [[5, 300], [6, 300]]]" 2
      "[[[5, 300], [6, 300]], [[1, 100], [2, 100]], [[3, 200], [4, 200]]]"]
  by (simp add: MISS_def TOTAL_def eval_nat_numeral)

section \<open>FIFO is deterministic\<close>

lemma FIFO_run_step_sound:
  assumes "FIFO_run_step c x s r" "distinct (run_cache s)"
  shows "FIFO_step c x (fifo_abs s) = map_sum id fifo_abs r \<and>
    (\<forall>s'. r = Inr s' \<longrightarrow> distinct (run_cache s'))"
  using assms
  by (induction rule: FIFO_run_step.induct)
    (auto simp: FIFO_step_def fifo_abs_def Let_def distinct_card)

lemma FIFO_run_loop_sound:
  assumes "FIFO_run_loop c xs s r" "distinct (run_cache s)"
  shows "FIFO_loop c xs (fifo_abs s) = map_sum id fifo_abs r"
  using assms
proof (induction rule: FIFO_run_loop.induct)
  case (finished s)
  then show ?case by simp
next
  case (stopped pid s e rest)
  then show ?case using FIFO_run_step_sound [of c pid s "Inl e"] by simp
next
  case (continued pid s s' rest r)
  then show ?case using FIFO_run_step_sound [of c pid s "Inr s'"] by simp
qed

lemma FIFO_run_sound:
  assumes "FIFO_run np c pageID r"
  shows "r = FIFO_processRAM np c pageID"
  using assms
proof (cases rule: FIFO_run.cases)
  case (returned s)
  then show ?thesis
    using FIFO_run_loop_sound [of c pageID fifo_run_init "Inr s"]
    by (simp add: FIFO_processRAM_def fifo_run_init_def fifo_abs_def fifo_init_def)
next
  case (undefined_run e)
  then show ?thesis
    using FIFO_run_loop_sound [of c pageID fifo_run_init "Inl e"]
    by (simp add: FIFO_processRAM_def fifo_run_init_def fifo_abs_def fifo_init_def)
qed

lemma FIFO_run_step_exists:
  assumes "distinct (run_cache s)"
  shows "\<exists>r. FIFO_run_step c x s r \<and> (\<forall>s'. r = Inr s' \<longrightarrow> distinct (run_cache s'))"
proof (cases "x \<in> set (run_cache s)")
  case True
  then show ?thesis using assms by (blast intro: FIFO_run_step.hit)
next
  case miss: False
  show ?thesis
  proof (cases "int (length (run_cache s)) = sint c")
    case False
    have "FIFO_run_step c x s
        (Inr \<lparr>run_missCount = run_missCount s + 1, run_cache = x # run_cache s,
              run_order = run_order s @ [x]\<rparr>)"
      using miss False assms by (intro FIFO_run_step.miss_insert) simp_all
    moreover have "distinct (x # run_cache s)" using miss assms by simp
    ultimately show ?thesis by force
  next
    case full: True
    show ?thesis
    proof (cases "run_order s")
      case Nil
      then show ?thesis using miss full by (blast intro: FIFO_run_step.miss_undefined)
    next
      case (Cons front rest)
      have "FIFO_run_step c x s
          (Inr \<lparr>run_missCount = run_missCount s + 1,
                run_cache = x # removeAll front (run_cache s), run_order = rest @ [x]\<rparr>)"
        using miss full Cons assms
        by (intro FIFO_run_step.miss_evict [of _ _ _ front]) (simp_all add: distinct_removeAll)
      moreover have "distinct (x # removeAll front (run_cache s))"
        using miss assms by (simp add: distinct_removeAll)
      ultimately show ?thesis by force
    qed
  qed
qed

lemma FIFO_run_loop_exists:
  "distinct (run_cache s) \<Longrightarrow> \<exists>r. FIFO_run_loop c xs s r"
proof (induction xs arbitrary: s)
  case Nil
  show ?case by (blast intro: FIFO_run_loop.finished)
next
  case (Cons x xs)
  from FIFO_run_step_exists [OF Cons.prems, of c x] obtain r
    where r: "FIFO_run_step c x s r" "\<forall>s'. r = Inr s' \<longrightarrow> distinct (run_cache s')" by blast
  show ?case
  proof (cases r)
    case (Inl e)
    then show ?thesis using r by (blast intro: FIFO_run_loop.stopped)
  next
    case (Inr s')
    then obtain r' where "FIFO_run_loop c xs s' r'" using r Cons.IH by blast
    then show ?thesis using r Inr by (blast intro: FIFO_run_loop.continued)
  qed
qed

lemma FIFO_run_exists: "\<exists>r. FIFO_run np c pageID r"
proof -
  obtain r where r: "FIFO_run_loop c pageID fifo_run_init r"
    using FIFO_run_loop_exists [of fifo_run_init c pageID] by (auto simp: fifo_run_init_def)
  show ?thesis
  proof (cases r)
    case (Inl e)
    then show ?thesis using r by (blast intro: FIFO_run.undefined_run)
  next
    case (Inr s)
    then show ?thesis using r by (blast intro: FIFO_run.returned)
  qed
qed

text \<open>
  Runs do differ in their layouts: after a miss on 2 with the resident 1, the hash set may
  hold 1, 2 or 2, 1.
\<close>

lemma FIFO_run_step_layouts:
  "FIFO_run_step 2 2 \<lparr>run_missCount = 1, run_cache = [1], run_order = [1]\<rparr>
     (Inr \<lparr>run_missCount = 2, run_cache = [1, 2], run_order = [1, 2]\<rparr>) \<and>
   FIFO_run_step 2 2 \<lparr>run_missCount = 1, run_cache = [1], run_order = [1]\<rparr>
     (Inr \<lparr>run_missCount = 2, run_cache = [2, 1], run_order = [1, 2]\<rparr>)"
  using FIFO_run_step.miss_insert
      [of 2 "\<lparr>run_missCount = 1, run_cache = [1], run_order = [1]\<rparr>" 2 "[1, 2]"]
    FIFO_run_step.miss_insert
      [of 2 "\<lparr>run_missCount = 1, run_cache = [1], run_order = [1]\<rparr>" 2 "[2, 1]"]
  by (simp add: insert_commute)

text \<open>
  C10. Every run of FIFO on a trace and a frame capacity has an outcome, and any two runs
  on the same trace and capacity have the same one, whatever the layouts of their hash
  sets: the miss count and total that \<open>FIFO_processRAM\<close> computes (or, where the
  eviction is undefined, the same undefined step).
\<close>

theorem FIFO_deterministic:
  "FIFO_run noOfPages noOfRAMPages pageID (FIFO_processRAM noOfPages noOfRAMPages pageID) \<and>
   (\<forall>r1 r2. FIFO_run noOfPages noOfRAMPages pageID r1 \<and> FIFO_run noOfPages noOfRAMPages pageID r2
      \<longrightarrow> r1 = r2)"
proof
  from FIFO_run_exists obtain r where "FIFO_run noOfPages noOfRAMPages pageID r" by blast
  then show "FIFO_run noOfPages noOfRAMPages pageID (FIFO_processRAM noOfPages noOfRAMPages pageID)"
    using FIFO_run_sound by blast
  show "\<forall>r1 r2. FIFO_run noOfPages noOfRAMPages pageID r1 \<and> FIFO_run noOfPages noOfRAMPages pageID r2
      \<longrightarrow> r1 = r2"
    using FIFO_run_sound by blast
qed


theorem FIFO_deterministic_witness:
  "FIFO_run 5 3 [1, 2, 3, 4, 1, 2, 5, 1, 2, 3, 4, 5] (Inr [9, 12]) \<and>
   FIFO_run 5 3 [1, 2, 3, 4, 1, 2, 5, 1, 2, 3, 4, 5]
     (FIFO_processRAM 5 3 [1, 2, 3, 4, 1, 2, 5, 1, 2, 3, 4, 5]) \<and>
   Inr [9, 12] = FIFO_processRAM 5 3 [1, 2, 3, 4, 1, 2, 5, 1, 2, 3, 4, 5]"
proof -
  have v: "FIFO_processRAM 5 3 [1, 2, 3, 4, 1, 2, 5, 1, 2, 3, 4, 5] = Inr [9, 12]"
    by code_simp
  show ?thesis
    using FIFO_deterministic [of 5 3 "[1, 2, 3, 4, 1, 2, 5, 1, 2, 3, 4, 5]"] unfolding v by simp
qed


end
